theory Spec2Isabelle
  imports Complex_Main "HOL-Library.AList" "HOL-Library.Sublist" "HOL-Library.Monad_Syntax"
begin

section \<open>Decoded response bodies\<close>

text \<open>
  A response body is what \<^verbatim>\<open>response.json()\<close> hands to the script: Python's
  \<^verbatim>\<open>None\<close>, a \<^verbatim>\<open>bool\<close>, an \<^verbatim>\<open>int\<close>, a \<^verbatim>\<open>float\<close>, a \<^verbatim>\<open>str\<close>, a \<^verbatim>\<open>list\<close>
  or a \<^verbatim>\<open>dict\<close> with string keys. A \<^verbatim>\<open>dict\<close> is an association list read with
  \<^const>\<open>map_of\<close>. A \<^verbatim>\<open>str\<close> is the list of the bytes that encode its code points in
  UTF-8, a lone surrogate (which \<^verbatim>\<open>json.loads\<close> accepts) encoded like any other code
  point, so that different strings are different lists.

  A \<^verbatim>\<open>float\<close> comes from a JSON number with a fraction or an exponent, or from one of
  the constants \<^verbatim>\<open>NaN\<close>, \<^verbatim>\<open>Infinity\<close> and \<^verbatim>\<open>-Infinity\<close>, which \<^verbatim>\<open>json.loads\<close> accepts.
  The script never computes with a number; it only tests numbers for truth, compares
  them and puts them in sets. A finite \<^verbatim>\<open>float\<close> is therefore given by its exact value,
  a rational number: Python compares an \<^verbatim>\<open>int\<close> and a \<^verbatim>\<open>float\<close> by their exact values.
\<close>

datatype pyfloat = FNum rat | FPosInf | FNegInf | FNaN

datatype json =
    JNull
  | JBool bool
  | JInt int
  | JFloat pyfloat
  | JStr string
  | JArr "json list"
  | JObj "(string \<times> json) list"

text \<open>\<^verbatim>\<open>x.get(k, d)\<close>: the value under \<open>k\<close> or the default; on anything but a
  \<^verbatim>\<open>dict\<close> the attribute does not exist and Python raises (\<open>None\<close> here).\<close>

fun py_get :: "json \<Rightarrow> string \<Rightarrow> json \<Rightarrow> json option" where
  "py_get (JObj kvs) k d = Some (case map_of kvs k of Some v \<Rightarrow> v | None \<Rightarrow> d)"
| "py_get _ k d = None"

text \<open>Truth value of an object, as \<^verbatim>\<open>not x\<close> reads it.\<close>

fun truthy :: "json \<Rightarrow> bool" where
  "truthy JNull = False"
| "truthy (JBool b) = b"
| "truthy (JInt n) = (n \<noteq> 0)"
| "truthy (JFloat x) = (x \<noteq> FNum 0)"
| "truthy (JStr s) = (s \<noteq> [])"
| "truthy (JArr xs) = (xs \<noteq> [])"
| "truthy (JObj kvs) = (kvs \<noteq> [])"

text \<open>\<^verbatim>\<open>x != 0\<close>: a \<^verbatim>\<open>bool\<close> is an integer in Python, so \<^verbatim>\<open>False != 0\<close> is false;
  \<^verbatim>\<open>0.0 != 0\<close> is false too; a value of any other type differs from \<open>0\<close>.\<close>

fun py_ne_zero :: "json \<Rightarrow> bool" where
  "py_ne_zero (JInt n) = (n \<noteq> 0)"
| "py_ne_zero (JBool b) = b"
| "py_ne_zero (JFloat x) = (x \<noteq> FNum 0)"
| "py_ne_zero _ = True"

text \<open>\<^verbatim>\<open>for x in v\<close>: the elements of a list, the one-character strings of a
  string, the keys of a dict; anything else is not iterable and raises.\<close>

fun py_iter :: "json \<Rightarrow> json list option" where
  "py_iter (JArr xs) = Some xs"
| "py_iter (JStr s) = Some (map (\<lambda>c. JStr [c]) s)"
| "py_iter (JObj kvs) = Some (map (\<lambda>kv. JStr (fst kv)) kvs)"
| "py_iter _ = None"

section \<open>Comment records\<close>

text \<open>The five keys shared by every comment dictionary the parser builds; a nested
  top-level record adds \<open>sub_comments\<close>, a flat record adds the item identifier, the
  parent identifier and the reply flag.\<close>

record comment_fields =
  content :: json
  like_count :: json
  ip_location :: json
  nickname :: json
  comment_id :: json

record nested_comment = comment_fields +
  sub_comments :: "comment_fields list"

record flat_comment = comment_fields +
  note_id :: string
  parent_comment_id :: json
  is_sub_comment :: bool

section \<open>\<^verbatim>\<open>extract_note_id_from_url\<close>\<close>

definition is_hex :: "char \<Rightarrow> bool" where
  "is_hex c = (c \<in> set ''abcdef0123456789'')"

text \<open>\<^verbatim>\<open>re.search(p + '([a-f0-9]+)', s)\<close> for a literal \<open>p\<close>: the leftmost position
  where \<open>p\<close> is followed by at least one character of the class; the group is the
  longest run there (the quantifier is greedy).\<close>

fun search_hex_after :: "string \<Rightarrow> string \<Rightarrow> string option" where
  "search_hex_after p [] = None"
| "search_hex_after p (c # cs) =
     (if prefix p (c # cs) \<and> takeWhile is_hex (drop (length p) (c # cs)) \<noteq> []
      then Some (takeWhile is_hex (drop (length p) (c # cs)))
      else search_hex_after p cs)"

definition extract_note_id_from_url :: "string \<Rightarrow> string" where
  "extract_note_id_from_url url =
     (case search_hex_after ''/explore/'' url of
        Some g \<Rightarrow> g
      | None \<Rightarrow>
         (case search_hex_after ''note_id='' url of
            Some g \<Rightarrow> g
          | None \<Rightarrow> ''''))"

section \<open>\<^verbatim>\<open>parse_comment_response\<close>\<close>

text \<open>The five \<^verbatim>\<open>.get\<close> reads of one entry, in the order of the dictionary display.
  The result is \<open>None\<close> when a read raises: the entry is not a \<^verbatim>\<open>dict\<close>, or its
  \<open>user_info\<close> is present and not a \<^verbatim>\<open>dict\<close>. The script performs the same reads
  once for the nested dictionary and once for the flat one.\<close>

definition extract_fields :: "json \<Rightarrow> comment_fields option" where
  "extract_fields c =
     do {
       ct \<leftarrow> py_get c ''content'' (JStr '''');
       lk \<leftarrow> py_get c ''like_count'' (JStr ''0'');
       ip \<leftarrow> py_get c ''ip_location'' (JStr '''');
       ui \<leftarrow> py_get c ''user_info'' (JObj []);
       nk \<leftarrow> py_get ui ''nickname'' (JStr '''');
       ci \<leftarrow> py_get c ''id'' (JStr '''');
       Some \<lparr>content = ct, like_count = lk, ip_location = ip, nickname = nk,
              comment_id = ci\<rparr>
     }"

definition comment_data :: "comment_fields \<Rightarrow> comment_fields list \<Rightarrow> nested_comment" where
  "comment_data f subs =
     \<lparr>content = content f, like_count = like_count f, ip_location = ip_location f,
      nickname = nickname f, comment_id = comment_id f, sub_comments = subs\<rparr>"

definition flat_comment :: "string \<Rightarrow> comment_fields \<Rightarrow> flat_comment" where
  "flat_comment nid f =
     \<lparr>content = content f, like_count = like_count f, ip_location = ip_location f,
      nickname = nickname f, comment_id = comment_id f,
      note_id = nid, parent_comment_id = JStr '''', is_sub_comment = False\<rparr>"

definition flat_sub_comment :: "string \<Rightarrow> json \<Rightarrow> comment_fields \<Rightarrow> flat_comment" where
  "flat_sub_comment nid parent f =
     \<lparr>content = content f, like_count = like_count f, ip_location = ip_location f,
      nickname = nickname f, comment_id = comment_id f,
      note_id = nid, parent_comment_id = parent, is_sub_comment = True\<rparr>"

text \<open>The inner loop over the replies of one entry. The result is the replies appended
  to \<open>comment_data['sub_comments']\<close>, the rows appended to \<open>flat_comments\<close>, and
  whether the loop ran to its end (\<open>False\<close>: a reply raised, and what was appended
  before it stays appended).\<close>

fun parse_sub_comments ::
  "string \<Rightarrow> json \<Rightarrow> json list \<Rightarrow> comment_fields list \<times> flat_comment list \<times> bool" where
  "parse_sub_comments nid parent [] = ([], [], True)"
| "parse_sub_comments nid parent (s # ss) =
     (case extract_fields s of
        None \<Rightarrow> ([], [], False)
      | Some f \<Rightarrow>
         (case parse_sub_comments nid parent ss of
            (subs, flats, ok) \<Rightarrow> (f # subs, flat_sub_comment nid parent f # flats, ok)))"

text \<open>The outer loop. An entry's flat row is appended before its replies are read, its
  nested record only after the last reply: when a reply raises, the rows of the entry
  are in \<open>flat_comments\<close> and its record is not in \<open>nested_comments\<close>.\<close>

fun parse_comments ::
  "string \<Rightarrow> json list \<Rightarrow> nested_comment list \<times> flat_comment list \<times> bool" where
  "parse_comments nid [] = ([], [], True)"
| "parse_comments nid (c # cs) =
     (case extract_fields c of
        None \<Rightarrow> ([], [], False)
      | Some f \<Rightarrow>
         (case py_iter (case py_get c ''sub_comments'' (JArr []) of
                          Some v \<Rightarrow> v | None \<Rightarrow> JNull) of
            None \<Rightarrow> ([], [flat_comment nid f], False)
          | Some ss \<Rightarrow>
             (case parse_sub_comments nid (comment_id f) ss of
                (subs, flats, False) \<Rightarrow> ([], flat_comment nid f # flats, False)
              | (subs, flats, True) \<Rightarrow>
                 (case parse_comments nid cs of
                    (nested, flat, ok) \<Rightarrow>
                      (comment_data f subs # nested,
                       (flat_comment nid f # flats) @ flat, ok)))))"

text \<open>The whole parser. The third component says whether the \<^verbatim>\<open>except\<close> branch ran,
  that is whether the warning was printed. The call of \<^verbatim>\<open>update_display\<close> after the
  loop only redraws the terminal and is not modelled.\<close>

definition parse_comment_response ::
  "json \<Rightarrow> string \<Rightarrow> nested_comment list \<times> flat_comment list \<times> bool" where
  "parse_comment_response response_data nid =
     (case py_get response_data ''success'' JNull of
        None \<Rightarrow> ([], [], True)
      | Some success \<Rightarrow>
         (case py_get response_data ''code'' JNull of
            None \<Rightarrow> ([], [], True)
          | Some code \<Rightarrow>
             if \<not> truthy success \<or> py_ne_zero code then ([], [], False)
             else
               (case py_get response_data ''data'' (JObj []) of
                  None \<Rightarrow> ([], [], True)
                | Some data \<Rightarrow>
                   (case py_get data ''comments'' (JArr []) of
                      None \<Rightarrow> ([], [], True)
                    | Some comments_list \<Rightarrow>
                       (case py_iter comments_list of
                          None \<Rightarrow> ([], [], True)
                        | Some cs \<Rightarrow>
                           (case parse_comments nid cs of
                              (nested, flat, ok) \<Rightarrow> (nested, flat, \<not> ok)))))))"

section \<open>Identifiers as set elements\<close>

text \<open>The handler keeps the identifiers it has seen in Python sets. An element of a set
  is found by hash and equality: \<^verbatim>\<open>True\<close> and \<open>1\<close> are one element, a \<^verbatim>\<open>list\<close> or
  a \<^verbatim>\<open>dict\<close> is unhashable and makes \<^verbatim>\<open>add\<close> and \<^verbatim>\<open>in\<close> raise. A \<open>key\<close> is an
  element of such a set; \<open>hash_key\<close> is \<open>None\<close> where Python raises. Numbers that are
  equal are one element, whatever their type. \<^verbatim>\<open>json.loads\<close> returns one and the same
  object for every \<^verbatim>\<open>NaN\<close> it reads, and a set looks for the same object before it
  compares, so \<^verbatim>\<open>NaN\<close> is one element as well.\<close>

datatype key = KNone | KNum rat | KPosInf | KNegInf | KNaN | KStr string

fun hash_key :: "json \<Rightarrow> key option" where
  "hash_key JNull = Some KNone"
| "hash_key (JBool b) = Some (KNum (if b then 1 else 0))"
| "hash_key (JInt n) = Some (KNum (of_int n))"
| "hash_key (JFloat (FNum q)) = Some (KNum q)"
| "hash_key (JFloat FPosInf) = Some KPosInf"
| "hash_key (JFloat FNegInf) = Some KNegInf"
| "hash_key (JFloat FNaN) = Some KNaN"
| "hash_key (JStr s) = Some (KStr s)"
| "hash_key (JArr xs) = None"
| "hash_key (JObj kvs) = None"

text \<open>\<^verbatim>\<open>v == w\<close> where \<open>w\<close> has passed a set-membership test and so is the hashable
  value of key \<open>k\<close>: a list or a dict is never equal to it, another hashable value is
  equal to it when it is the same set element, except that \<^verbatim>\<open>NaN\<close> is equal to nothing,
  not even to itself.\<close>

definition py_eq_key :: "json \<Rightarrow> key \<Rightarrow> bool" where
  "py_eq_key v k = (k \<noteq> KNaN \<and> hash_key v = Some k)"

text \<open>Adding the identifiers \<open>js\<close> to a set, one \<^verbatim>\<open>add\<close> after the other.\<close>

fun add_ids :: "json list \<Rightarrow> key set \<Rightarrow> key set option" where
  "add_ids [] S = Some S"
| "add_ids (j # js) S =
     (case hash_key j of None \<Rightarrow> None | Some k \<Rightarrow> add_ids js (insert k S))"

section \<open>The accumulated state\<close>

text \<open>The two global dictionaries, keyed by item identifier. A Python \<^verbatim>\<open>dict\<close> keeps
  its keys in insertion order and the aggregate writer iterates them, so each is an
  association list; \<^const>\<open>AList.update\<close> replaces the value of a present key in place
  and puts an absent key last, as an assignment \<^verbatim>\<open>d[k] = v\<close> does.\<close>

record state =
  all_comments_data :: "(string \<times> nested_comment list) list"
  all_comments_flat :: "(string \<times> flat_comment list) list"

definition init_state :: state where
  "init_state = \<lparr>all_comments_data = [], all_comments_flat = []\<rparr>"

text \<open>\<^verbatim>\<open>if k not in d: d[k] = []\<close>\<close>

definition setdefault_empty :: "string \<Rightarrow> (string \<times> 'a list) list \<Rightarrow> (string \<times> 'a list) list" where
  "setdefault_empty k d = (case map_of d k of None \<Rightarrow> AList.update k [] d | Some v \<Rightarrow> d)"

text \<open>\<^verbatim>\<open>d.get(k, [])\<close>; the handler subscripts \<open>d[k]\<close> only after the line above, where
  the key is present.\<close>

definition item_list :: "(string \<times> 'a list) list \<Rightarrow> string \<Rightarrow> 'a list" where
  "item_list d k = (case map_of d k of None \<Rightarrow> [] | Some v \<Rightarrow> v)"

text \<open>\<^verbatim>\<open>d[k].extend(new)\<close>\<close>

definition extend_item :: "string \<Rightarrow> 'a list \<Rightarrow> (string \<times> 'a list) list \<Rightarrow> (string \<times> 'a list) list" where
  "extend_item k new d = AList.update k (item_list d k @ new) d"

section \<open>\<^verbatim>\<open>handle_comment_api_response\<close>\<close>

definition COMMENT_API_PATTERN :: string where
  "COMMENT_API_PATTERN = ''https://edith.xiaohongshu.com/api/sns/web/v2/comment/page?note_id=''"

text \<open>\<^verbatim>\<open>p in s\<close> on strings.\<close>

fun str_contains :: "string \<Rightarrow> string \<Rightarrow> bool" where
  "str_contains p [] = (p = [])"
| "str_contains p (c # cs) = (prefix p (c # cs) \<or> str_contains p cs)"

text \<open>The loop that collects the identifiers of the stored nested records, top-level
  identifier first, then the replies of the record.\<close>

fun collect_nested_ids :: "nested_comment list \<Rightarrow> key set \<Rightarrow> key set option" where
  "collect_nested_ids [] S = Some S"
| "collect_nested_ids (c # cs) S =
     (case hash_key (comment_id c) of
        None \<Rightarrow> None
      | Some k \<Rightarrow>
         (case add_ids (map comment_id (sub_comments c)) (insert k S) of
            None \<Rightarrow> None
          | Some S' \<Rightarrow> collect_nested_ids cs S'))"

text \<open>The four local variables the filtering loop updates.\<close>

record merge_acc =
  existing_nested_ids :: "key set"
  existing_flat_ids :: "key set"
  new_nested_comments :: "nested_comment list"
  new_flat_comments :: "flat_comment list"

text \<open>\<^verbatim>\<open>if flat and flat['comment_id'] not in existing_flat_ids: append; add\<close>, for the
  row that \<^verbatim>\<open>next(..., None)\<close> found (or \<open>None\<close>); the row's identifier is equal to the
  hashable value of key \<open>k\<close>.\<close>

definition accept_flat :: "key \<Rightarrow> flat_comment option \<Rightarrow> merge_acc \<Rightarrow> merge_acc" where
  "accept_flat k found acc =
     (case found of
        None \<Rightarrow> acc
      | Some fc \<Rightarrow>
         if k \<notin> existing_flat_ids acc
         then acc\<lparr>new_flat_comments := new_flat_comments acc @ [fc],
                  existing_flat_ids := insert k (existing_flat_ids acc)\<rparr>
         else acc)"

text \<open>The loop over the replies of an accepted top-level record. \<open>None\<close>: the
  membership test raised on an unhashable identifier.\<close>

fun merge_sub_comments ::
  "flat_comment list \<Rightarrow> comment_fields list \<Rightarrow> merge_acc \<Rightarrow> merge_acc option" where
  "merge_sub_comments flat_comments [] acc = Some acc"
| "merge_sub_comments flat_comments (sub_c # rest) acc =
     (case hash_key (comment_id sub_c) of
        None \<Rightarrow> None
      | Some k \<Rightarrow>
         if k \<notin> existing_nested_ids acc
         then merge_sub_comments flat_comments rest
                (accept_flat k
                   (find (\<lambda>fc. py_eq_key (comment_id fc) k \<and> is_sub_comment fc) flat_comments)
                   (acc\<lparr>existing_nested_ids := insert k (existing_nested_ids acc)\<rparr>))
         else merge_sub_comments flat_comments rest acc)"

text \<open>The body of the loop over the parsed top-level records.\<close>

definition merge_comment ::
  "flat_comment list \<Rightarrow> nested_comment \<Rightarrow> merge_acc \<Rightarrow> merge_acc option" where
  "merge_comment flat_comments nested_c acc =
     (case hash_key (comment_id nested_c) of
        None \<Rightarrow> None
      | Some k \<Rightarrow>
         if k \<notin> existing_nested_ids acc
         then merge_sub_comments flat_comments (sub_comments nested_c)
                (accept_flat k
                   (find (\<lambda>fc. py_eq_key (comment_id fc) k \<and> \<not> is_sub_comment fc) flat_comments)
                   (acc\<lparr>new_nested_comments := new_nested_comments acc @ [nested_c],
                        existing_nested_ids := insert k (existing_nested_ids acc)\<rparr>))
         else Some acc)"

fun merge_comments ::
  "flat_comment list \<Rightarrow> nested_comment list \<Rightarrow> merge_acc \<Rightarrow> merge_acc option" where
  "merge_comments flat_comments [] acc = Some acc"
| "merge_comments flat_comments (nested_c # rest) acc =
     (case merge_comment flat_comments nested_c acc of
        None \<Rightarrow> None
      | Some acc' \<Rightarrow> merge_comments flat_comments rest acc')"

text \<open>Everything the handler does with a parsed batch for item \<open>nid\<close>. The two
  dictionaries get their key first; any exception afterwards is caught by the handler's
  outer \<^verbatim>\<open>except\<close> before the two \<^verbatim>\<open>extend\<close> calls, so the lists stay as they were.
  The title lookup and the file writes that follow the \<^verbatim>\<open>extend\<close> calls do not touch
  the two dictionaries.\<close>

definition merge_batch ::
  "string \<Rightarrow> nested_comment list \<Rightarrow> flat_comment list \<Rightarrow> state \<Rightarrow> state" where
  "merge_batch nid nested_comments flat_comments st =
     (if nested_comments \<noteq> [] \<or> flat_comments \<noteq> [] then
        let st1 = st\<lparr>all_comments_data := setdefault_empty nid (all_comments_data st),
                     all_comments_flat := setdefault_empty nid (all_comments_flat st)\<rparr>
        in
          (case collect_nested_ids (item_list (all_comments_data st1) nid) {} of
             None \<Rightarrow> st1
           | Some nested_ids \<Rightarrow>
              (case add_ids (map comment_id (item_list (all_comments_flat st1) nid)) {} of
                 None \<Rightarrow> st1
               | Some flat_ids \<Rightarrow>
                  (case merge_comments flat_comments nested_comments
                          \<lparr>existing_nested_ids = nested_ids, existing_flat_ids = flat_ids,
                           new_nested_comments = [], new_flat_comments = []\<rparr> of
                     None \<Rightarrow> st1
                   | Some acc \<Rightarrow>
                      if new_nested_comments acc \<noteq> [] then
                        st1\<lparr>all_comments_data :=
                               extend_item nid (new_nested_comments acc) (all_comments_data st1),
                            all_comments_flat :=
                               extend_item nid (new_flat_comments acc) (all_comments_flat st1)\<rparr>
                      else st1)))
      else st)"

text \<open>The handler: \<open>url\<close> is \<^verbatim>\<open>response.url\<close>, \<open>body\<close> is the decoded body, \<open>None\<close> when
  \<^verbatim>\<open>response.json()\<close> raises.\<close>

definition handle_comment_api_response :: "string \<Rightarrow> json option \<Rightarrow> state \<Rightarrow> state" where
  "handle_comment_api_response url body st =
     (if \<not> str_contains COMMENT_API_PATTERN url then st
      else
        (case search_hex_after ''note_id='' url of
           None \<Rightarrow> st
         | Some nid \<Rightarrow>
            (case body of
               None \<Rightarrow> st
             | Some response_body \<Rightarrow>
                (case parse_comment_response response_body nid of
                   (nested_comments, flat_comments, warned) \<Rightarrow>
                     merge_batch nid nested_comments flat_comments st))))"

text \<open>The states the script can be in: it starts with both dictionaries empty and only
  the handler writes to them.\<close>

inductive reachable :: "state \<Rightarrow> bool" where
  start: "reachable init_state"
| step: "reachable st \<Longrightarrow> reachable (handle_comment_api_response url body st)"

section \<open>\<^verbatim>\<open>save_all_comments_to_file\<close>\<close>

text \<open>A written file: the list handed to \<^verbatim>\<open>json.dump\<close>, or the header and the rows
  handed to the \<^verbatim>\<open>csv.DictWriter\<close>, each row in the order of \<open>fieldnames\<close>; or what
  is left of a file when the library raised while writing it: the file was emptied
  when it was opened and holds an incomplete text. The conversion of a value to text
  is left to the library.\<close>

datatype file_content =
    JsonFile "nested_comment list"
  | CsvFile "string list" "json list list"
  | Incomplete

definition fieldnames :: "string list" where
  "fieldnames = [''content'', ''like_count'', ''ip_location'', ''nickname'',
                 ''note_id'', ''comment_id'', ''parent_comment_id'', ''is_sub_comment'']"

definition flat_value :: "flat_comment \<Rightarrow> string \<Rightarrow> json" where
  "flat_value fc k =
     (if k = ''content'' then content fc
      else if k = ''like_count'' then like_count fc
      else if k = ''ip_location'' then ip_location fc
      else if k = ''nickname'' then nickname fc
      else if k = ''note_id'' then JStr (note_id fc)
      else if k = ''comment_id'' then comment_id fc
      else if k = ''parent_comment_id'' then parent_comment_id fc
      else if k = ''is_sub_comment'' then JBool (is_sub_comment fc)
      else JStr '''')"

definition csv_row :: "flat_comment \<Rightarrow> json list" where
  "csv_row fc = map (flat_value fc) fieldnames"

text \<open>The writer, as a function on the files of the output directory; the second
  component of the result says whether the function raised. Both files are opened with
  \<^verbatim>\<open>encoding='utf-8'\<close> and the JSON is written with \<^verbatim>\<open>ensure_ascii=False\<close>, so
  \<^verbatim>\<open>json.dump\<close> and the \<^verbatim>\<open>csv\<close> writer raise on data they cannot encode, for instance
  on a stored string with a lone surrogate. Which data the two libraries can write is
  not a matter of the script: it is given by the parameters \<open>json_ok\<close> and \<open>csv_ok\<close>.
  The directory is taken to exist and to accept the two files.\<close>

definition save_all_comments_to_file ::
  "(nested_comment list \<Rightarrow> bool) \<Rightarrow> (json list list \<Rightarrow> bool) \<Rightarrow>
   state \<Rightarrow> (string \<rightharpoonup> file_content) \<Rightarrow> (string \<rightharpoonup> file_content) \<times> bool" where
  "save_all_comments_to_file json_ok csv_ok st files =
     (if all_comments_data st = [] then (files, False)
      else
        let all_nested_comments = concat (map snd (all_comments_data st));
            all_flat_comments = concat (map snd (all_comments_flat st))
        in
          if all_nested_comments = [] \<and> all_flat_comments = [] then (files, False)
          else if \<not> json_ok all_nested_comments
          then (files(''All CommentData.json'' \<mapsto> Incomplete), True)
          else
            let files1 = files(''All CommentData.json'' \<mapsto> JsonFile all_nested_comments)
            in
              if all_flat_comments \<noteq> []
              then
                if \<not> csv_ok (map csv_row all_flat_comments)
                then (files1(''All CommentData.csv'' \<mapsto> Incomplete), True)
                else (files1(''All CommentData.csv'' \<mapsto>
                               CsvFile fieldnames (map csv_row all_flat_comments)), False)
              else (files1, False))"

section \<open>Notions of the specification\<close>

text \<open>A match of the pattern \<open>p\<close> followed by a run of lowercase hexadecimal characters,
  at position \<open>i\<close> of \<open>url\<close>: the run \<open>h\<close> is not empty and is not followed by another
  such character.\<close>

definition matches_at :: "string \<Rightarrow> string \<Rightarrow> nat \<Rightarrow> string \<Rightarrow> bool" where
  "matches_at p url i h \<longleftrightarrow>
     i \<le> length url \<and> h \<noteq> [] \<and> (\<forall>c \<in> set h. is_hex c) \<and>
     (\<exists>rest. drop i url = p @ h @ rest \<and> (rest = [] \<or> \<not> is_hex (hd rest)))"

text \<open>\<open>h\<close> is the run of the first match; there is no match at all.\<close>

definition first_match :: "string \<Rightarrow> string \<Rightarrow> string \<Rightarrow> bool" where
  "first_match p url h \<longleftrightarrow>
     (\<exists>i. matches_at p url i h \<and> (\<forall>j<i. \<forall>h'. \<not> matches_at p url j h'))"

definition no_match :: "string \<Rightarrow> string \<Rightarrow> bool" where
  "no_match p url \<longleftrightarrow> (\<forall>i h. \<not> matches_at p url i h)"

text \<open>The value of a top-level field of a body, \<^verbatim>\<open>None\<close> when the body has no such
  field; a body whose success flag is absent or false, or whose status code is not zero.\<close>

definition body_field_or :: "json \<Rightarrow> string \<Rightarrow> json \<Rightarrow> json" where
  "body_field_or body k d =
     (case body of
        JObj kvs \<Rightarrow> (case map_of kvs k of Some v \<Rightarrow> v | None \<Rightarrow> d)
      | _ \<Rightarrow> d)"

definition body_field :: "json \<Rightarrow> string \<Rightarrow> json" where
  "body_field body k =
     (case body of
        JObj kvs \<Rightarrow> (case map_of kvs k of Some v \<Rightarrow> v | None \<Rightarrow> JNull)
      | _ \<Rightarrow> JNull)"

definition unsuccessful :: "json \<Rightarrow> bool" where
  "unsuccessful body \<longleftrightarrow>
     \<not> truthy (body_field body ''success'') \<or> py_ne_zero (body_field body ''code'')"

text \<open>The value an entry has for a key, with the default for a missing key.\<close>

definition field_or :: "(string \<times> json) list \<Rightarrow> string \<Rightarrow> string \<Rightarrow> json" where
  "field_or kvs k d = (case map_of kvs k of Some v \<Rightarrow> v | None \<Rightarrow> JStr d)"

text \<open>The comment entries of a body that has passed the success gate: the value under
  \<open>comments\<close> of the object under \<open>data\<close>, each of the two empty when missing. There are
  none to speak of (\<open>None\<close>) when \<open>data\<close> is not an object or \<open>comments\<close> cannot be
  iterated.\<close>

definition comment_entries :: "json \<Rightarrow> json list option" where
  "comment_entries body =
     (case body_field_or body ''data'' (JObj []) of
        JObj d \<Rightarrow> (case map_of d ''comments'' of None \<Rightarrow> Some [] | Some v \<Rightarrow> py_iter v)
      | _ \<Rightarrow> None)"

text \<open>An entry (a comment or a reply) whose fields can be read: an object whose author
  object is absent or an object. The record of such an entry, every missing field with
  its default.\<close>

fun readable :: "json \<Rightarrow> bool" where
  "readable (JObj kvs) =
     (case map_of kvs ''user_info'' of
        None \<Rightarrow> True
      | Some (JObj ui) \<Rightarrow> True
      | Some _ \<Rightarrow> False)"
| "readable _ = False"

definition display_name :: "(string \<times> json) list \<Rightarrow> json" where
  "display_name kvs =
     (case map_of kvs ''user_info'' of
        Some (JObj ui) \<Rightarrow> field_or ui ''nickname'' []
      | _ \<Rightarrow> JStr [])"

fun entry_fields :: "json \<Rightarrow> comment_fields" where
  "entry_fields (JObj kvs) =
     \<lparr>content = field_or kvs ''content'' [],
      like_count = field_or kvs ''like_count'' ''0'',
      ip_location = field_or kvs ''ip_location'' [],
      nickname = display_name kvs,
      comment_id = field_or kvs ''id'' []\<rparr>"
| "entry_fields _ =
     \<lparr>content = JStr [], like_count = JStr ''0'', ip_location = JStr [],
      nickname = JStr [], comment_id = JStr []\<rparr>"

text \<open>The reply entries of a comment entry (none when \<open>sub_comments\<close> is missing; \<open>None\<close>
  when it cannot be iterated), and a comment entry that can be parsed: its fields and
  the fields of all its replies can be read.\<close>

fun reply_entries :: "json \<Rightarrow> json list option" where
  "reply_entries (JObj kvs) =
     (case map_of kvs ''sub_comments'' of None \<Rightarrow> Some [] | Some v \<Rightarrow> py_iter v)"
| "reply_entries _ = None"

definition parsable :: "json \<Rightarrow> bool" where
  "parsable c \<longleftrightarrow>
     readable c \<and>
     (case reply_entries c of None \<Rightarrow> False | Some rs \<Rightarrow> list_all readable rs)"

text \<open>The nested record and the flat rows that the specification asks for a comment
  entry: the record with the records of the replies inside, and one row for the comment
  (reply flag false, no parent) followed by one row for each reply (reply flag true,
  parent the comment's identifier).\<close>

definition flat_row :: "string \<Rightarrow> json \<Rightarrow> bool \<Rightarrow> json \<Rightarrow> flat_comment" where
  "flat_row nid parent is_reply e =
     \<lparr>content = content (entry_fields e), like_count = like_count (entry_fields e),
      ip_location = ip_location (entry_fields e), nickname = nickname (entry_fields e),
      comment_id = comment_id (entry_fields e),
      note_id = nid, parent_comment_id = parent, is_sub_comment = is_reply\<rparr>"

definition entry_nested :: "json \<Rightarrow> nested_comment" where
  "entry_nested c =
     \<lparr>content = content (entry_fields c), like_count = like_count (entry_fields c),
      ip_location = ip_location (entry_fields c), nickname = nickname (entry_fields c),
      comment_id = comment_id (entry_fields c),
      sub_comments =
        (case reply_entries c of None \<Rightarrow> [] | Some rs \<Rightarrow> map entry_fields rs)\<rparr>"

definition entry_flat :: "string \<Rightarrow> json \<Rightarrow> flat_comment list" where
  "entry_flat nid c =
     flat_row nid (JStr []) False c #
     (case reply_entries c of
        None \<Rightarrow> []
      | Some rs \<Rightarrow> map (flat_row nid (comment_id (entry_fields c)) True) rs)"

text \<open>The flat rows that an entry which cannot be parsed leaves behind: none when its
  own fields cannot be read, else its row and the rows of the replies before the first
  one that cannot be read.\<close>

definition rows_before_failure :: "string \<Rightarrow> json \<Rightarrow> flat_comment list" where
  "rows_before_failure nid c =
     (if \<not> readable c then []
      else
        flat_row nid (JStr []) False c #
        (case reply_entries c of
           None \<Rightarrow> []
         | Some rs \<Rightarrow>
            map (flat_row nid (comment_id (entry_fields c)) True) (takeWhile readable rs)))"

text \<open>The identifiers of a nested sequence, each top-level identifier followed by the
  identifiers of its replies; the set elements of a list of identifiers; a list of
  identifiers that can all be set elements.\<close>

definition nested_ids :: "nested_comment list \<Rightarrow> json list" where
  "nested_ids ns = concat (map (\<lambda>c. comment_id c # map comment_id (sub_comments c)) ns)"

fun id_keys :: "json list \<Rightarrow> key list" where
  "id_keys [] = []"
| "id_keys (j # js) = (case hash_key j of None \<Rightarrow> id_keys js | Some k \<Rightarrow> k # id_keys js)"

definition hashable :: "json list \<Rightarrow> bool" where
  "hashable js = list_all (\<lambda>j. hash_key j \<noteq> None) js"

text \<open>What one run of the filtering loop did to its four variables: it appended the
  nested records \<open>dn\<close> and the flat rows \<open>df\<close>, and added their identifiers to the two
  sets. The top-level identifiers of \<open>dn\<close> and the identifiers of \<open>df\<close> were new and
  are pairwise different, and the rows of \<open>df\<close> are in the order of the identifiers
  of \<open>dn\<close>.\<close>

definition accepted ::
  "merge_acc \<Rightarrow> merge_acc \<Rightarrow> nested_comment list \<Rightarrow> flat_comment list \<Rightarrow> bool" where
  "accepted acc acc' dn df \<longleftrightarrow>
     new_nested_comments acc' = new_nested_comments acc @ dn \<and>
     new_flat_comments acc' = new_flat_comments acc @ df \<and>
     hashable (nested_ids dn) \<and>
     hashable (map comment_id df) \<and>
     existing_nested_ids acc' = existing_nested_ids acc \<union> set (id_keys (nested_ids dn)) \<and>
     existing_flat_ids acc' = existing_flat_ids acc \<union> set (id_keys (map comment_id df)) \<and>
     distinct (id_keys (map comment_id dn)) \<and>
     set (id_keys (map comment_id dn)) \<inter> existing_nested_ids acc = {} \<and>
     distinct (id_keys (map comment_id df)) \<and>
     set (id_keys (map comment_id df)) \<inter> existing_flat_ids acc = {} \<and>
     subseq (id_keys (map comment_id df)) (id_keys (nested_ids dn))"

text \<open>What the loop over the replies of one accepted record did: it read the
  identifiers \<open>ids\<close>, added them to the first set, and appended the rows \<open>df\<close>.\<close>

definition sub_accepted :: "merge_acc \<Rightarrow> merge_acc \<Rightarrow> json list \<Rightarrow> flat_comment list \<Rightarrow> bool" where
  "sub_accepted acc acc' ids df \<longleftrightarrow>
     new_nested_comments acc' = new_nested_comments acc \<and>
     new_flat_comments acc' = new_flat_comments acc @ df \<and>
     hashable ids \<and> hashable (map comment_id df) \<and>
     existing_nested_ids acc' = existing_nested_ids acc \<union> set (id_keys ids) \<and>
     existing_flat_ids acc' = existing_flat_ids acc \<union> set (id_keys (map comment_id df)) \<and>
     distinct (id_keys (map comment_id df)) \<and>
     set (id_keys (map comment_id df)) \<inter> existing_flat_ids acc = {} \<and>
     subseq (id_keys (map comment_id df)) (id_keys ids)"

text \<open>The records that the step from \<open>st\<close> to \<open>st'\<close> introduced for item \<open>nid\<close>: what
  the sequences of \<open>st'\<close> hold beyond the length they had in \<open>st\<close>.\<close>

definition introduced_nested :: "string \<Rightarrow> state \<Rightarrow> state \<Rightarrow> nested_comment list" where
  "introduced_nested nid st st' =
     drop (length (item_list (all_comments_data st) nid)) (item_list (all_comments_data st') nid)"

definition introduced_flat :: "string \<Rightarrow> state \<Rightarrow> state \<Rightarrow> flat_comment list" where
  "introduced_flat nid st st' =
     drop (length (item_list (all_comments_flat st) nid)) (item_list (all_comments_flat st') nid)"

text \<open>A parsed batch in which every nested record and every reply inside it has a row
  with the same identifier and the same level in the flat batch.\<close>

definition matched :: "nested_comment list \<Rightarrow> flat_comment list \<Rightarrow> bool" where
  "matched nb fb \<longleftrightarrow>
     (\<forall>c \<in> set nb.
        (\<exists>fc \<in> set fb. comment_id fc = comment_id c \<and> \<not> is_sub_comment fc) \<and>
        (\<forall>s \<in> set (sub_comments c).
           \<exists>fc \<in> set fb. comment_id fc = comment_id s \<and> is_sub_comment fc))"

text \<open>The two sequences of one item are consistent: every stored identifier can be a
  set element, the flat sequence holds the identifiers of the nested sequence other
  than \<^verbatim>\<open>NaN\<close>, and neither the top level of the nested sequence nor the flat sequence
  holds an identifier twice.\<close>

definition item_inv :: "nested_comment list \<Rightarrow> flat_comment list \<Rightarrow> bool" where
  "item_inv N F \<longleftrightarrow>
     hashable (nested_ids N) \<and> hashable (map comment_id F) \<and>
     set (id_keys (map comment_id F)) = set (id_keys (nested_ids N)) - {KNaN} \<and>
     distinct (id_keys (map comment_id N)) \<and>
     distinct (id_keys (map comment_id F))"

section \<open>Sample inputs\<close>

text \<open>The URL of a comment-page request for item \<open>nid\<close>, a body that passes the success
  gate with the entries \<open>cs\<close>, and an entry with identifier \<open>i\<close> and the replies \<open>subs\<close>,
  every other key missing.\<close>

definition api_url :: "string \<Rightarrow> string" where
  "api_url nid = COMMENT_API_PATTERN @ nid @ ''&cursor=''"

definition ok_body :: "json list \<Rightarrow> json" where
  "ok_body cs =
     JObj [(''success'', JBool True), (''code'', JInt 0),
           (''data'', JObj [(''comments'', JArr cs)])]"

definition entry :: "string \<Rightarrow> json list \<Rightarrow> json" where
  "entry i subs = JObj [(''id'', JStr i), (''sub_comments'', JArr subs)]"

text \<open>The records the parser builds from such entries.\<close>

definition reply_rec :: "string \<Rightarrow> comment_fields" where
  "reply_rec i =
     \<lparr>content = JStr '''', like_count = JStr ''0'', ip_location = JStr '''',
      nickname = JStr '''', comment_id = JStr i\<rparr>"

definition nested_rec :: "string \<Rightarrow> string list \<Rightarrow> nested_comment" where
  "nested_rec i rs = comment_data (reply_rec i) (map reply_rec rs)"

definition flat_rec :: "string \<Rightarrow> string \<Rightarrow> flat_comment" where
  "flat_rec nid i = flat_comment nid (reply_rec i)"

definition flat_reply_rec :: "string \<Rightarrow> string \<Rightarrow> string \<Rightarrow> flat_comment" where
  "flat_reply_rec nid p i = flat_sub_comment nid (JStr p) (reply_rec i)"

text \<open>The state after one response for each of two items: three flat rows for the
  first, two for the second.\<close>

definition two_items :: state where
  "two_items =
     handle_comment_api_response (api_url ''def456'')
       (Some (ok_body [entry ''b'' [entry ''r3'' []]]))
       (handle_comment_api_response (api_url ''abc123'')
          (Some (ok_body [entry ''a'' [entry ''r1'' [], entry ''r2'' []]])) init_state)"

text \<open>The state after one response for item \<open>abc123\<close> with the single comment \<open>p\<close>,
  and the parsed batch of a later response in which \<open>p\<close> carries the reply \<open>r\<close>.\<close>

definition one_comment :: state where
  "one_comment =
     handle_comment_api_response (api_url ''abc123'') (Some (ok_body [entry ''p'' []]))
       init_state"

definition reply_batch_nested :: "nested_comment list" where
  "reply_batch_nested = [nested_rec ''p'' [''r'']]"

definition reply_batch_flat :: "flat_comment list" where
  "reply_batch_flat = [flat_rec ''abc123'' ''p'', flat_reply_rec ''abc123'' ''p'' ''r'']"

text \<open>The parsed batch of a response in which the stored comment \<open>p\<close> and the new
  comment \<open>q\<close> both carry a reply with the identifier \<open>r\<close>.\<close>

definition shared_reply_nested :: "nested_comment list" where
  "shared_reply_nested = [nested_rec ''p'' [''r''], nested_rec ''q'' [''r'']]"

definition shared_reply_flat :: "flat_comment list" where
  "shared_reply_flat =
     [flat_rec ''abc123'' ''p'', flat_reply_rec ''abc123'' ''p'' ''r'',
      flat_rec ''abc123'' ''q'', flat_reply_rec ''abc123'' ''q'' ''r'']"

text \<open>The sample records hold ASCII strings only, which both libraries can write to a
  file in UTF-8: for them the two parameters of the writer are constantly true.\<close>

definition can_write :: "'a \<Rightarrow> bool" where
  "can_write x = True"


section \<open>Item identifiers in URLs\<close>

lemma takeWhile_run:
  "(\<forall>c\<in>set h. is_hex c) \<Longrightarrow> r = [] \<or> \<not> is_hex (hd r) \<Longrightarrow> takeWhile is_hex (h @ r) = h"
  by (induction h) (cases r; auto)+

lemma matches_at_0:
  "matches_at p s 0 h \<longleftrightarrow> prefix p s \<and> takeWhile is_hex (drop (length p) s) = h \<and> h \<noteq> []"
proof
  assume "matches_at p s 0 h"
  then obtain rest where h: "h \<noteq> []" "\<forall>c\<in>set h. is_hex c" "s = p @ h @ rest" "rest = [] \<or> \<not> is_hex (hd rest)"
    by (auto simp: matches_at_def)
  then show "prefix p s \<and> takeWhile is_hex (drop (length p) s) = h \<and> h \<noteq> []"
    using takeWhile_run[of h rest] by simp
next
  assume a: "prefix p s \<and> takeWhile is_hex (drop (length p) s) = h \<and> h \<noteq> []"
  then obtain t where t: "s = p @ t" by (auto simp: prefix_def)
  with a have h: "takeWhile is_hex t = h" "h \<noteq> []" by auto
  have "t = h @ dropWhile is_hex t" using h by (metis takeWhile_dropWhile_id)
  moreover have "dropWhile is_hex t = [] \<or> \<not> is_hex (hd (dropWhile is_hex t))"
    by (metis hd_dropWhile)
  moreover have "\<forall>c\<in>set h. is_hex c" using h by (metis set_takeWhileD)
  ultimately show "matches_at p s 0 h"
    unfolding matches_at_def using t h by auto
qed

lemma matches_at_Suc: "matches_at p (c # cs) (Suc i) h \<longleftrightarrow> matches_at p cs i h"
  by (simp add: matches_at_def)

lemma matches_at_Nil: "matches_at p [] i h \<longleftrightarrow> False"
  by (auto simp: matches_at_def)

lemma search_Some: "search_hex_after p s = Some h \<longleftrightarrow> first_match p s h"
proof (induction s)
  case Nil
  then show ?case by (simp add: first_match_def matches_at_Nil)
next
  case (Cons c cs)
  show ?case
  proof (cases "prefix p (c # cs) \<and> takeWhile is_hex (drop (length p) (c # cs)) \<noteq> []")
    case True
    then have m0: "matches_at p (c # cs) 0 (takeWhile is_hex (drop (length p) (c # cs)))"
      by (simp add: matches_at_0)
    have "first_match p (c # cs) h \<longleftrightarrow> h = takeWhile is_hex (drop (length p) (c # cs))"
    proof
      assume "first_match p (c # cs) h"
      then obtain i where i: "matches_at p (c # cs) i h" "\<forall>j<i. \<forall>h'. \<not> matches_at p (c # cs) j h'"
        by (auto simp: first_match_def)
      with m0 have "i = 0" by (cases i) auto
      with i show "h = takeWhile is_hex (drop (length p) (c # cs))" by (simp add: matches_at_0)
    next
      assume "h = takeWhile is_hex (drop (length p) (c # cs))"
      with m0 show "first_match p (c # cs) h" unfolding first_match_def by (intro exI[of _ 0]) simp
    qed
    with True show ?thesis by auto
  next
    case False
    then have n0: "\<And>h'. \<not> matches_at p (c # cs) 0 h'" by (auto simp: matches_at_0)
    have "first_match p (c # cs) h \<longleftrightarrow> first_match p cs h"
    proof
      assume "first_match p (c # cs) h"
      then obtain i where i: "matches_at p (c # cs) i h" "\<forall>j<i. \<forall>h'. \<not> matches_at p (c # cs) j h'"
        by (auto simp: first_match_def)
      with n0 obtain k where k: "i = Suc k" by (cases i) auto
      have "\<forall>j<k. \<forall>h'. \<not> matches_at p cs j h'"
      proof (intro allI impI)
        fix j h' assume "j < k"
        then have "Suc j < i" using k by simp
        with i(2) have "\<not> matches_at p (c # cs) (Suc j) h'" by blast
        then show "\<not> matches_at p cs j h'" by (simp add: matches_at_Suc)
      qed
      with i k show "first_match p cs h" unfolding first_match_def
        by (intro exI[of _ k]) (simp add: matches_at_Suc)
    next
      assume "first_match p cs h"
      then obtain i where i: "matches_at p cs i h" "\<forall>j<i. \<forall>h'. \<not> matches_at p cs j h'"
        by (auto simp: first_match_def)
      have "\<forall>j<Suc i. \<forall>h'. \<not> matches_at p (c # cs) j h'"
      proof (intro allI impI)
        fix j h' assume j: "j < Suc i"
        show "\<not> matches_at p (c # cs) j h'"
        proof (cases j)
          case 0 then show ?thesis using n0 by simp
        next
          case (Suc j') with j i(2) show ?thesis by (simp add: matches_at_Suc)
        qed
      qed
      with i show "first_match p (c # cs) h" unfolding first_match_def
        by (intro exI[of _ "Suc i"]) (simp add: matches_at_Suc)
    qed
    with False Cons show ?thesis by auto
  qed
qed

lemma search_None: "search_hex_after p s = None \<longleftrightarrow> no_match p s"
proof (induction s)
  case Nil
  then show ?case by (simp add: no_match_def matches_at_Nil)
next
  case (Cons c cs)
  have "no_match p (c # cs) \<longleftrightarrow> (\<forall>h. \<not> matches_at p (c # cs) 0 h) \<and> no_match p cs"
    unfolding no_match_def
    by (metis matches_at_Suc not0_implies_Suc)
  with Cons show ?case by (auto simp: matches_at_0)
qed

text \<open>
  Claim C10. Extracting the item identifier from a URL never fails and is determined by
  the URL alone: it is the hexadecimal run of the first \<open>/explore/\<close> match when there is
  one (whatever \<open>note_id=\<close> parameters the URL has), else the run of the first
  \<open>note_id=\<close> match when there is one, else the empty string; one of the three cases
  always applies.
\<close>

theorem extract_note_id_from_url_cases:
  "(first_match ''/explore/'' url h \<longrightarrow> extract_note_id_from_url url = h) \<and>
   (no_match ''/explore/'' url \<and> first_match ''note_id='' url h \<longrightarrow>
      extract_note_id_from_url url = h) \<and>
   (no_match ''/explore/'' url \<and> no_match ''note_id='' url \<longrightarrow>
      extract_note_id_from_url url = '''') \<and>
   ((\<exists>g. first_match ''/explore/'' url g) \<or>
    (no_match ''/explore/'' url \<and> (\<exists>g. first_match ''note_id='' url g)) \<or>
    (no_match ''/explore/'' url \<and> no_match ''note_id='' url))"
proof (intro conjI impI)
  assume "first_match ''/explore/'' url h"
  then have "search_hex_after ''/explore/'' url = Some h" by (simp only: search_Some)
  then show "extract_note_id_from_url url = h" by (simp add: extract_note_id_from_url_def)
next
  assume "no_match ''/explore/'' url \<and> first_match ''note_id='' url h"
  then have "search_hex_after ''/explore/'' url = None" "search_hex_after ''note_id='' url = Some h"
    by (simp_all only: search_Some search_None)
  then show "extract_note_id_from_url url = h" by (simp add: extract_note_id_from_url_def)
next
  assume "no_match ''/explore/'' url \<and> no_match ''note_id='' url"
  then have "search_hex_after ''/explore/'' url = None" "search_hex_after ''note_id='' url = None"
    by (simp_all only: search_None)
  then show "extract_note_id_from_url url = ''''" by (simp add: extract_note_id_from_url_def)
next
  show "(\<exists>g. first_match ''/explore/'' url g) \<or>
    (no_match ''/explore/'' url \<and> (\<exists>g. first_match ''note_id='' url g)) \<or>
    (no_match ''/explore/'' url \<and> no_match ''note_id='' url)"
  proof (cases "search_hex_after ''/explore/'' url")
    case (Some g)
    then show ?thesis using search_Some by blast
  next
    case None
    then have n: "no_match ''/explore/'' url" by (simp only: search_None)
    show ?thesis
    proof (cases "search_hex_after ''note_id='' url")
      case (Some g)
      then show ?thesis using n search_Some by blast
    next
      case None
      then show ?thesis using n search_None by blast
    qed
  qed
qed

theorem extract_note_id_from_url_cases_witness:
  "first_match ''/explore/'' ''https://www.xiaohongshu.com/explore/64ab?note_id=ff'' ''64ab'' \<and>
   extract_note_id_from_url ''https://www.xiaohongshu.com/explore/64ab?note_id=ff'' = ''64ab''"
proof -
  have "search_hex_after ''/explore/'' ''https://www.xiaohongshu.com/explore/64ab?note_id=ff''
          = Some ''64ab''"
    by (simp add: is_hex_def)
  then have m: "first_match ''/explore/'' ''https://www.xiaohongshu.com/explore/64ab?note_id=ff'' ''64ab''"
    by (simp only: search_Some)
  with extract_note_id_from_url_cases
         [of "''https://www.xiaohongshu.com/explore/64ab?note_id=ff''" "''64ab''"]
  show ?thesis by blast
qed

section \<open>The parser\<close>

lemma merge_batch_empty: "merge_batch nid [] [] st = st"
  by (simp add: merge_batch_def)

lemma parse_ok_body:
  "parse_comment_response (ok_body cs) nid =
     (case parse_comments nid cs of (nested, flat, ok) \<Rightarrow> (nested, flat, \<not> ok))"
  by (simp add: parse_comment_response_def ok_body_def)

text \<open>
  Claim C6, amended. For every response body that is a JSON object in which the success
  flag is absent or false, or the status code is not zero, the parser returns an empty
  nested list and an empty flat list without printing a warning, and the handler leaves
  the state as it was.
\<close>

theorem unsuccessful_body_ignored:
  assumes "unsuccessful (JObj kvs)"
  shows "parse_comment_response (JObj kvs) nid = ([], [], False) \<and>
         handle_comment_api_response url (Some (JObj kvs)) st = st"
proof -
  from assms have p: "parse_comment_response (JObj kvs) nid' = ([], [], False)" for nid'
    by (auto simp: unsuccessful_def body_field_def parse_comment_response_def split: option.splits)
  then show ?thesis
    by (simp add: handle_comment_api_response_def merge_batch_empty split: option.splits)
qed

theorem unsuccessful_body_ignored_witness:
  "unsuccessful (JObj [(''success'', JBool False)]) \<and>
   parse_comment_response (JObj [(''success'', JBool False)]) ''abc123'' = ([], [], False) \<and>
   handle_comment_api_response (api_url ''abc123'') (Some (JObj [(''success'', JBool False)]))
     init_state = init_state"
proof -
  have u: "unsuccessful (JObj [(''success'', JBool False)])"
    by (simp add: unsuccessful_def body_field_def)
  from unsuccessful_body_ignored [OF u, of "''abc123''" "api_url ''abc123''" init_state] u
  show ?thesis by simp
qed

text \<open>
  Claim C6 as stated fails on a body that is not an object: the JSON array \<open>[]\<close> has no
  success flag, \<^verbatim>\<open>response_data.get\<close> raises, and the parser prints its warning.
\<close>

theorem non_object_body_counterexample:
  "unsuccessful (JArr []) \<and> parse_comment_response (JArr []) ''abc123'' = ([], [], True)"
  by (simp add: unsuccessful_def body_field_def parse_comment_response_def)

lemma extract_fields_readable: "readable c \<Longrightarrow> extract_fields c = Some (entry_fields c)"
  by (cases c)
     (auto simp: extract_fields_def field_or_def display_name_def
           split: option.splits json.splits)

lemma extract_fields_unreadable: "\<not> readable c \<Longrightarrow> extract_fields c = None"
  by (cases c)
     (auto simp: extract_fields_def split: option.splits json.splits)

lemma parse_sub_comments_eq:
  "parse_sub_comments nid parent rs =
     (map entry_fields (takeWhile readable rs),
      map (flat_row nid parent True) (takeWhile readable rs),
      list_all readable rs)"
proof (induction rs)
  case Nil
  then show ?case by simp
next
  case (Cons r rs)
  show ?case
  proof (cases "readable r")
    case True
    with Cons show ?thesis
      by (simp add: extract_fields_readable flat_sub_comment_def flat_row_def)
  next
    case False
    then show ?thesis by (simp add: extract_fields_unreadable)
  qed
qed

lemma sub_comments_value:
  "readable c \<Longrightarrow>
   py_iter (case py_get c ''sub_comments'' (JArr []) of Some v \<Rightarrow> v | None \<Rightarrow> JNull)
     = reply_entries c"
  by (cases c) (auto split: option.splits)

lemma takeWhile_all: "list_all P xs \<Longrightarrow> takeWhile P xs = xs"
  by (induction xs) auto

lemma parse_comments_one:
  "parse_comments nid (c # cs) =
     (if parsable c
      then (case parse_comments nid cs of
              (nested, flat, ok) \<Rightarrow> (entry_nested c # nested, entry_flat nid c @ flat, ok))
      else ([], rows_before_failure nid c, False))"
proof (cases "readable c")
  case False
  then show ?thesis
    by (simp add: extract_fields_unreadable parsable_def rows_before_failure_def)
next
  case r: True
  show ?thesis
  proof (cases "reply_entries c")
    case None
    with r show ?thesis
      by (simp add: extract_fields_readable sub_comments_value parsable_def
            rows_before_failure_def flat_comment_def flat_row_def)
  next
    case (Some rs)
    show ?thesis
    proof (cases "list_all readable rs")
      case True
      with r Some show ?thesis
        by (simp add: extract_fields_readable sub_comments_value parsable_def
              parse_sub_comments_eq takeWhile_all entry_nested_def entry_flat_def
              comment_data_def flat_comment_def flat_row_def split: prod.splits)
    next
      case False
      with r Some show ?thesis
        by (simp add: extract_fields_readable sub_comments_value parsable_def
              parse_sub_comments_eq rows_before_failure_def flat_comment_def flat_row_def)
    qed
  qed
qed

lemma parse_comments_parsable:
  "list_all parsable cs \<Longrightarrow>
   parse_comments nid cs = (map entry_nested cs, concat (map (entry_flat nid) cs), True)"
proof (induction cs)
  case Nil
  then show ?case by simp
next
  case (Cons c cs)
  then show ?case by (simp add: parse_comments_one del: parse_comments.simps)
qed

lemma parse_comments_failure:
  "list_all parsable xs \<Longrightarrow> \<not> parsable bad \<Longrightarrow>
   parse_comments nid (xs @ bad # ys) =
     (map entry_nested xs, concat (map (entry_flat nid) xs) @ rows_before_failure nid bad,
      False)"
proof (induction xs)
  case Nil
  then show ?case by (simp add: parse_comments_one del: parse_comments.simps)
next
  case (Cons c cs)
  then show ?case by (simp add: parse_comments_one del: parse_comments.simps)
qed

lemma parse_comment_response_gate:
  assumes "\<not> unsuccessful body"
  shows "parse_comment_response body nid =
     (case comment_entries body of
        None \<Rightarrow> ([], [], True)
      | Some cs \<Rightarrow>
         (case parse_comments nid cs of (nested, flat, ok) \<Rightarrow> (nested, flat, \<not> ok)))"
proof (cases body)
  case (JObj kvs)
  with assms show ?thesis
    by (auto simp: unsuccessful_def body_field_def parse_comment_response_def
          comment_entries_def body_field_or_def
          split: option.splits json.splits)
qed (use assms in \<open>simp_all add: unsuccessful_def body_field_def\<close>)

text \<open>
  Claim C7, amended. In a body accepted by the success gate, a missing field of an entry
  yields its default (the empty string, \<open>"0"\<close> for the like count, the empty display name
  when the author object is absent): when every entry can be parsed, the parser returns
  exactly the nested records and the flat rows of the entries, in their order, without
  a warning. The parser always returns. A failure inside one entry ends the parsing of
  the batch there, with a warning: the records and rows of the entries before it are
  returned, together with the flat rows the failing entry had already produced, and the
  entries after it are not parsed. When the entries cannot be read at all, the parser
  returns two empty lists with a warning.
\<close>

theorem parse_defaults_and_failure:
  assumes "\<not> unsuccessful body"
  shows
    "(comment_entries body = Some cs \<and> list_all parsable cs \<longrightarrow>
        parse_comment_response body nid =
          (map entry_nested cs, concat (map (entry_flat nid) cs), False)) \<and>
     (comment_entries body = Some (xs @ bad # ys) \<and> list_all parsable xs \<and> \<not> parsable bad \<longrightarrow>
        parse_comment_response body nid =
          (map entry_nested xs,
           concat (map (entry_flat nid) xs) @ rows_before_failure nid bad, True)) \<and>
     (comment_entries body = None \<longrightarrow> parse_comment_response body nid = ([], [], True))"
  by (simp add: parse_comment_response_gate [OF assms] parse_comments_parsable
        parse_comments_failure)

lemmas sample_defs =
  entry_def reply_rec_def nested_rec_def flat_rec_def flat_reply_rec_def
  extract_fields_def comment_data_def flat_comment_def flat_sub_comment_def

lemma comment_entries_ok_body: "comment_entries (ok_body cs) = Some cs"
  by (simp add: comment_entries_def body_field_or_def ok_body_def)

lemma successful_ok_body: "\<not> unsuccessful (ok_body cs)"
  by (simp add: unsuccessful_def body_field_def ok_body_def)

lemmas entry_defs =
  parsable_def entry_nested_def entry_flat_def flat_row_def rows_before_failure_def
  field_or_def display_name_def

theorem parse_defaults_and_failure_witness:
  "\<not> unsuccessful (ok_body [entry ''a'' [entry ''r'' []]]) \<and>
   parse_comment_response (ok_body [entry ''a'' [entry ''r'' []]]) ''abc123''
     = ([nested_rec ''a'' [''r'']],
        [flat_rec ''abc123'' ''a'', flat_reply_rec ''abc123'' ''a'' ''r''], False) \<and>
   nested_rec ''a'' [''r'']
     = \<lparr>content = JStr [], like_count = JStr ''0'', ip_location = JStr [],
        nickname = JStr [], comment_id = JStr ''a'',
        sub_comments = [\<lparr>content = JStr [], like_count = JStr ''0'', ip_location = JStr [],
                          nickname = JStr [], comment_id = JStr ''r''\<rparr>]\<rparr> \<and>
   parse_comment_response
     (ok_body ([entry ''a'' []] @ JObj [(''id'', JStr ''b''), (''user_info'', JNull)]
                 # [entry ''c'' []])) ''abc123''
     = ([nested_rec ''a'' []], [flat_rec ''abc123'' ''a''], True) \<and>
   parse_comment_response
     (JObj [(''success'', JBool True), (''code'', JInt 0), (''data'', JNull)]) ''abc123''
     = ([], [], True)"
proof -
  let ?bad = "JObj [(''id'', JStr ''b''), (''user_info'', JNull)]"
  let ?nodata = "JObj [(''success'', JBool True), (''code'', JInt 0), (''data'', JNull)]"
  have 1: "list_all parsable [entry ''a'' [entry ''r'' []]]" "list_all parsable [entry ''a'' []]"
    "\<not> parsable ?bad"
    by (simp_all add: entry_defs entry_def)
  have 2: "map entry_nested [entry ''a'' [entry ''r'' []]] = [nested_rec ''a'' [''r'']]"
    "concat (map (entry_flat ''abc123'') [entry ''a'' [entry ''r'' []]])
       = [flat_rec ''abc123'' ''a'', flat_reply_rec ''abc123'' ''a'' ''r'']"
    "map entry_nested [entry ''a'' []] = [nested_rec ''a'' []]"
    "concat (map (entry_flat ''abc123'') [entry ''a'' []]) @ rows_before_failure ''abc123'' ?bad
       = [flat_rec ''abc123'' ''a'']"
    by (simp_all add: entry_defs sample_defs)
  have 3: "\<not> unsuccessful ?nodata" "comment_entries ?nodata = None"
    by (simp_all add: unsuccessful_def body_field_def comment_entries_def body_field_or_def)
  have 4: "nested_rec ''a'' [''r'']
     = \<lparr>content = JStr [], like_count = JStr ''0'', ip_location = JStr [],
        nickname = JStr [], comment_id = JStr ''a'',
        sub_comments = [\<lparr>content = JStr [], like_count = JStr ''0'', ip_location = JStr [],
                          nickname = JStr [], comment_id = JStr ''r''\<rparr>]\<rparr>"
    by (simp add: sample_defs)
  from parse_defaults_and_failure
         [where body = "ok_body [entry ''a'' [entry ''r'' []]]"
            and cs = "[entry ''a'' [entry ''r'' []]]" and nid = "''abc123''",
          OF successful_ok_body]
       comment_entries_ok_body 1(1)
  have 5: "parse_comment_response (ok_body [entry ''a'' [entry ''r'' []]]) ''abc123''
     = ([nested_rec ''a'' [''r'']],
        [flat_rec ''abc123'' ''a'', flat_reply_rec ''abc123'' ''a'' ''r''], False)"
    unfolding 2 by blast
  from parse_defaults_and_failure
         [where body = "ok_body ([entry ''a'' []] @ ?bad # [entry ''c'' []])"
            and xs = "[entry ''a'' []]" and bad = ?bad and ys = "[entry ''c'' []]"
            and nid = "''abc123''",
          OF successful_ok_body]
       comment_entries_ok_body 1(2,3)
  have 6: "parse_comment_response (ok_body ([entry ''a'' []] @ ?bad # [entry ''c'' []])) ''abc123''
     = ([nested_rec ''a'' []], [flat_rec ''abc123'' ''a''], True)"
    unfolding 2 by blast
  from parse_defaults_and_failure [where nid = "''abc123''", OF 3(1)] 3(2)
  have 7: "parse_comment_response ?nodata ''abc123'' = ([], [], True)"
    by blast
  from successful_ok_body 4 5 6 7 show ?thesis by blast
qed

text \<open>
  Claim C7 as stated fails: an entry whose author object is \<^verbatim>\<open>null\<close> makes the parser
  drop the well-formed entry that follows it, which on its own is parsed.
\<close>

theorem failing_entry_counterexample:
  "parse_comment_response
     (ok_body [JObj [(''id'', JStr ''a''), (''user_info'', JNull)], entry ''b'' []]) ''abc123''
     = ([], [], True) \<and>
   parse_comment_response (ok_body [entry ''b'' []]) ''abc123''
     = ([nested_rec ''b'' []], [flat_rec ''abc123'' ''b''], False)"
  by (simp add: parse_ok_body sample_defs)

section \<open>The handler touches one item\<close>

lemma map_of_setdefault_empty_other:
  "m \<noteq> k \<Longrightarrow> map_of (setdefault_empty k d) m = map_of d m"
  by (simp add: setdefault_empty_def update_conv' split: option.splits)

lemma map_of_extend_item_other:
  "m \<noteq> k \<Longrightarrow> map_of (extend_item k new d) m = map_of d m"
  by (simp add: extend_item_def update_conv')

lemma merge_batch_other:
  assumes "m \<noteq> nid"
  shows "map_of (all_comments_data (merge_batch nid nb fb st)) m = map_of (all_comments_data st) m"
    and "map_of (all_comments_flat (merge_batch nid nb fb st)) m = map_of (all_comments_flat st) m"
  using assms
  by (simp_all add: merge_batch_def Let_def map_of_setdefault_empty_other
        map_of_extend_item_other split: option.splits)

lemma search_api_url: "search_hex_after ''note_id='' (api_url ''abc123'') = Some ''abc123''"
  by (simp add: api_url_def COMMENT_API_PATTERN_def is_hex_def)

lemma contains_api_url: "str_contains COMMENT_API_PATTERN (api_url nid)"
  by (simp add: api_url_def COMMENT_API_PATTERN_def)

text \<open>
  Claim C9. Handling a response whose URL carries the item identifier \<open>n\<close> changes at
  most what the two dictionaries store under \<open>n\<close>: for every other identifier \<open>m\<close> the
  nested and the flat sequence stored under \<open>m\<close> (or their absence) are the same before
  and after.
\<close>

theorem handle_comment_api_response_frame:
  assumes "search_hex_after ''note_id='' url = Some n" and "m \<noteq> n"
  shows "map_of (all_comments_data (handle_comment_api_response url body st)) m
           = map_of (all_comments_data st) m \<and>
         map_of (all_comments_flat (handle_comment_api_response url body st)) m
           = map_of (all_comments_flat st) m"
  using assms
  by (simp add: handle_comment_api_response_def merge_batch_other
        split: option.splits prod.splits)

theorem handle_comment_api_response_frame_witness:
  "search_hex_after ''note_id='' (api_url ''abc123'') = Some ''abc123'' \<and>
   ''ffff'' \<noteq> ''abc123'' \<and>
   map_of (all_comments_data
      (handle_comment_api_response (api_url ''abc123'') (Some (ok_body [entry ''c1'' []]))
         \<lparr>all_comments_data = [(''ffff'', [nested_rec ''x'' []])],
          all_comments_flat = [(''ffff'', [flat_rec ''ffff'' ''x''])]\<rparr>)) ''ffff''
     = Some [nested_rec ''x'' []] \<and>
   map_of (all_comments_flat
      (handle_comment_api_response (api_url ''abc123'') (Some (ok_body [entry ''c1'' []]))
         \<lparr>all_comments_data = [(''ffff'', [nested_rec ''x'' []])],
          all_comments_flat = [(''ffff'', [flat_rec ''ffff'' ''x''])]\<rparr>)) ''ffff''
     = Some [flat_rec ''ffff'' ''x'']"
proof -
  have ne: "''ffff'' \<noteq> ''abc123''" by simp
  from handle_comment_api_response_frame [OF search_api_url ne,
         of "Some (ok_body [entry ''c1'' []])"
            "\<lparr>all_comments_data = [(''ffff'', [nested_rec ''x'' []])],
              all_comments_flat = [(''ffff'', [flat_rec ''ffff'' ''x''])]\<rparr>"]
  show ?thesis using search_api_url by simp
qed

section \<open>The aggregate files\<close>

lemma setdefault_empty_keys:
  "map fst (setdefault_empty k (d :: (string \<times> 'a list) list)) =
     (if k \<in> set (map fst d) then map fst d else map fst d @ [k])"
proof -
  have u: "k \<notin> set (map fst d) \<Longrightarrow> AList.update k v d = d @ [(k, v)]" for v :: "'a list"
    by (induction d) auto
  have "map_of d k \<noteq> None \<longleftrightarrow> k \<in> set (map fst d)"
    by (simp add: map_of_eq_None_iff)
  then show ?thesis
    by (cases "map_of d k") (auto simp: setdefault_empty_def u)
qed

lemma update_keys: "k \<in> set (map fst d) \<Longrightarrow> map fst (AList.update k v d) = map fst d"
  by (induction d) auto

lemma extend_item_keys:
  "k \<in> set (map fst d) \<Longrightarrow> map fst (extend_item k new d) = map fst d"
  unfolding extend_item_def by (rule update_keys)

lemma setdefault_empty_has_key: "k \<in> set (map fst (setdefault_empty k d))"
  by (simp add: setdefault_empty_keys)

lemma merge_batch_same_items:
  assumes "map fst (all_comments_data st) = map fst (all_comments_flat st)"
  shows "map fst (all_comments_data (merge_batch nid nb fb st))
           = map fst (all_comments_flat (merge_batch nid nb fb st))"
proof -
  have "map fst (setdefault_empty nid (all_comments_data st))
          = map fst (setdefault_empty nid (all_comments_flat st))"
    using assms by (simp add: setdefault_empty_keys)
  then show ?thesis using assms
    by (simp add: merge_batch_def Let_def extend_item_keys setdefault_empty_has_key
          del: set_map split: option.splits)
qed

lemma reachable_same_items:
  "reachable st \<Longrightarrow> map fst (all_comments_data st) = map fst (all_comments_flat st)"
proof (induction rule: reachable.induct)
  case start
  then show ?case by (simp add: init_state_def)
next
  case (step st url body)
  then show ?case
    by (simp add: handle_comment_api_response_def merge_batch_same_items
          split: option.splits prod.splits)
qed

lemmas handle_eval =
  handle_comment_api_response_def merge_batch_def parse_ok_body sample_defs
  setdefault_empty_def item_list_def extend_item_def accept_flat_def merge_comment_def
  py_eq_key_def init_state_def Let_def

lemma search_api_url2: "search_hex_after ''note_id='' (api_url ''def456'') = Some ''def456''"
  by (simp add: api_url_def COMMENT_API_PATTERN_def is_hex_def)

lemma two_items_eq:
  "two_items =
     \<lparr>all_comments_data = [(''abc123'', [nested_rec ''a'' [''r1'', ''r2'']]),
                           (''def456'', [nested_rec ''b'' [''r3'']])],
      all_comments_flat =
        [(''abc123'', [flat_rec ''abc123'' ''a'', flat_reply_rec ''abc123'' ''a'' ''r1'',
                       flat_reply_rec ''abc123'' ''a'' ''r2'']),
         (''def456'', [flat_rec ''def456'' ''b'', flat_reply_rec ''def456'' ''b'' ''r3''])]\<rparr>"
  unfolding two_items_def
  by (simp add: handle_eval search_api_url search_api_url2 contains_api_url)

text \<open>
  Claim C8, amended. For every collection of item states that holds at least one flat
  record, and whose records the JSON encoder and the CSV writer can write to a UTF-8
  file, the aggregate write produces, under the two fixed file names, a nested file
  that is the concatenation of the items' nested sequences and a flat table that is
  the concatenation of the items' flat sequences, both in the order in which the items
  were registered, the table with the eight fixed columns; two items with 3 and 2 flat
  records give 5 rows. When no item holds a record, nothing is written. When the JSON
  encoder cannot write the nested records, the function raises, the JSON file is left
  incomplete and the table is not written; when only the CSV writer fails, the function
  raises with the nested file written and the table left incomplete.
\<close>

theorem save_all_comments_to_file_contents:
  assumes "map fst (all_comments_data st) = map fst (all_comments_flat st)"
  shows "(concat (map snd (all_comments_flat st)) \<noteq> [] \<and>
          json_ok (concat (map snd (all_comments_data st))) \<and>
          csv_ok (map csv_row (concat (map snd (all_comments_flat st)))) \<longrightarrow>
            save_all_comments_to_file json_ok csv_ok st files =
              (files(''All CommentData.json'' \<mapsto>
                       JsonFile (concat (map snd (all_comments_data st))),
                     ''All CommentData.csv'' \<mapsto>
                       CsvFile [''content'', ''like_count'', ''ip_location'', ''nickname'',
                                ''note_id'', ''comment_id'', ''parent_comment_id'',
                                ''is_sub_comment'']
                         (map csv_row (concat (map snd (all_comments_flat st))))),
               False)) \<and>
         (concat (map snd (all_comments_data st)) = [] \<and>
          concat (map snd (all_comments_flat st)) = [] \<longrightarrow>
            save_all_comments_to_file json_ok csv_ok st files = (files, False)) \<and>
         (concat (map snd (all_comments_flat st)) \<noteq> [] \<and>
          \<not> json_ok (concat (map snd (all_comments_data st))) \<longrightarrow>
            save_all_comments_to_file json_ok csv_ok st files =
              (files(''All CommentData.json'' \<mapsto> Incomplete), True)) \<and>
         (concat (map snd (all_comments_flat st)) \<noteq> [] \<and>
          json_ok (concat (map snd (all_comments_data st))) \<and>
          \<not> csv_ok (map csv_row (concat (map snd (all_comments_flat st)))) \<longrightarrow>
            save_all_comments_to_file json_ok csv_ok st files =
              (files(''All CommentData.json'' \<mapsto>
                       JsonFile (concat (map snd (all_comments_data st))),
                     ''All CommentData.csv'' \<mapsto> Incomplete),
               True))"
proof -
  have d: "all_comments_data st \<noteq> []" if "concat (map snd (all_comments_flat st)) \<noteq> []"
  proof -
    from that have "all_comments_flat st \<noteq> []" by auto
    with assms show ?thesis by (metis map_is_Nil_conv)
  qed
  show ?thesis
  proof (cases "concat (map snd (all_comments_flat st)) = []")
    case True
    then show ?thesis
      by (simp add: save_all_comments_to_file_def Let_def)
  next
    case False
    from d[OF False] False show ?thesis
      by (auto simp: save_all_comments_to_file_def Let_def fieldnames_def)
  qed
qed

theorem save_all_comments_to_file_contents_witness:
  "reachable two_items \<and>
   map fst (all_comments_data two_items) = map fst (all_comments_flat two_items) \<and>
   map (length \<circ> snd) (all_comments_flat two_items) = [3, 2] \<and>
   concat (map snd (all_comments_flat two_items)) \<noteq> [] \<and>
   save_all_comments_to_file can_write can_write two_items Map.empty =
     ([''All CommentData.json'' \<mapsto>
         JsonFile [nested_rec ''a'' [''r1'', ''r2''], nested_rec ''b'' [''r3'']],
       ''All CommentData.csv'' \<mapsto>
         CsvFile [''content'', ''like_count'', ''ip_location'', ''nickname'',
                  ''note_id'', ''comment_id'', ''parent_comment_id'', ''is_sub_comment'']
           (map csv_row
              [flat_rec ''abc123'' ''a'', flat_reply_rec ''abc123'' ''a'' ''r1'',
               flat_reply_rec ''abc123'' ''a'' ''r2'', flat_rec ''def456'' ''b'',
               flat_reply_rec ''def456'' ''b'' ''r3''])],
      False)"
proof -
  have r: "reachable two_items"
    unfolding two_items_def by (intro reachable.step reachable.start)
  have k: "map fst (all_comments_data two_items) = map fst (all_comments_flat two_items)"
    by (simp add: two_items_eq)
  have n: "concat (map snd (all_comments_flat two_items)) \<noteq> []"
    by (simp add: two_items_eq)
  have l: "map (length \<circ> snd) (all_comments_flat two_items) = [3, 2]"
    by (simp add: two_items_eq)
  have w: "can_write (concat (map snd (all_comments_data two_items)))"
    "can_write (map csv_row (concat (map snd (all_comments_flat two_items))))"
    by (simp_all add: can_write_def)
  from save_all_comments_to_file_contents [OF k, of can_write can_write Map.empty] n w
  have "save_all_comments_to_file can_write can_write two_items Map.empty =
      ([''All CommentData.json'' \<mapsto> JsonFile (concat (map snd (all_comments_data two_items))),
        ''All CommentData.csv'' \<mapsto>
          CsvFile [''content'', ''like_count'', ''ip_location'', ''nickname'',
                   ''note_id'', ''comment_id'', ''parent_comment_id'', ''is_sub_comment'']
            (map csv_row (concat (map snd (all_comments_flat two_items))))],
       False)"
    by blast
  with r k n l show ?thesis by (simp add: two_items_eq)
qed

text \<open>
  Claim C8 as stated fails where no record is held: a response whose only entry has a
  malformed reply registers the item with two empty sequences, and the aggregate write
  for that state returns before it opens a file, so no table is produced.
\<close>

theorem no_records_counterexample:
  "handle_comment_api_response (api_url ''abc123'') (Some (ok_body [entry ''a'' [JNull]]))
     init_state
     = \<lparr>all_comments_data = [(''abc123'', [])], all_comments_flat = [(''abc123'', [])]\<rparr> \<and>
   save_all_comments_to_file can_write can_write
     \<lparr>all_comments_data = [(''abc123'', [])], all_comments_flat = [(''abc123'', [])]\<rparr>
     Map.empty = (Map.empty, False)"
  by (simp add: handle_eval search_api_url contains_api_url save_all_comments_to_file_def)

section \<open>The filtering loop\<close>

lemma id_keys_append: "id_keys (xs @ ys) = id_keys xs @ id_keys ys"
  by (induction xs) (auto split: option.splits)

lemma hashable_append: "hashable (xs @ ys) \<longleftrightarrow> hashable xs \<and> hashable ys"
  by (simp add: hashable_def)

lemma hashable_Cons: "hashable (x # xs) \<longleftrightarrow> hash_key x \<noteq> None \<and> hashable xs"
  by (simp add: hashable_def)

lemma hashable_Nil: "hashable []"
  by (simp add: hashable_def)

lemma nested_ids_append: "nested_ids (xs @ ys) = nested_ids xs @ nested_ids ys"
  by (simp add: nested_ids_def)

lemma nested_ids_Cons:
  "nested_ids (c # cs) = comment_id c # map comment_id (sub_comments c) @ nested_ids cs"
  by (simp add: nested_ids_def)

lemma nested_ids_Nil: "nested_ids [] = []"
  by (simp add: nested_ids_def)

lemma add_ids_eq:
  "add_ids js S = (if hashable js then Some (S \<union> set (id_keys js)) else None)"
  by (induction js arbitrary: S) (auto simp: hashable_Cons hashable_Nil split: option.splits)

lemma collect_nested_ids_eq:
  "collect_nested_ids ns S =
     (if hashable (nested_ids ns) then Some (S \<union> set (id_keys (nested_ids ns))) else None)"
proof (induction ns arbitrary: S)
  case Nil
  then show ?case by (simp add: nested_ids_Nil hashable_Nil)
next
  case (Cons c cs)
  show ?case
    by (auto simp: Cons.IH add_ids_eq nested_ids_Cons hashable_Cons hashable_append
          id_keys_append split: option.splits)
qed

lemma merge_comments_append:
  "merge_comments fb (xs @ ys) acc =
     (case merge_comments fb xs acc of None \<Rightarrow> None | Some a \<Rightarrow> merge_comments fb ys a)"
  by (induction xs arbitrary: acc) (auto split: option.splits)

lemma merge_comment_known:
  "hash_key (comment_id c) = Some k \<Longrightarrow> k \<in> existing_nested_ids acc \<Longrightarrow>
   merge_comment fb c acc = Some acc"
  by (simp add: merge_comment_def)

lemma accept_flat_result:
  assumes "found = find P fb" "\<forall>fc. P fc \<longrightarrow> hash_key (comment_id fc) = Some k"
  shows "\<exists>df. accept_flat k found acc =
            acc\<lparr>new_flat_comments := new_flat_comments acc @ df,
                existing_flat_ids := existing_flat_ids acc \<union> set (id_keys (map comment_id df))\<rparr> \<and>
          (df = [] \<or> (\<exists>fc. df = [fc] \<and> fc \<in> set fb \<and> P fc \<and> k \<notin> existing_flat_ids acc))"
proof (cases "find P fb")
  case None
  with assms(1) have "accept_flat k found acc = acc" by (simp add: accept_flat_def)
  then show ?thesis by (intro exI[of _ "[]"]) simp
next
  case (Some fc)
  then have fc: "P fc" "fc \<in> set fb"
    by (auto simp: find_Some_iff)
  show ?thesis
  proof (cases "k \<in> existing_flat_ids acc")
    case True
    with Some assms(1) have "accept_flat k found acc = acc" by (simp add: accept_flat_def)
    then show ?thesis by (intro exI[of _ "[]"]) simp
  next
    case False
    with Some assms fc show ?thesis
      by (intro exI[of _ "[fc]"]) (simp add: accept_flat_def)
  qed
qed

lemma sub_accepted_refl: "sub_accepted acc acc [] []"
  by (simp add: sub_accepted_def hashable_Nil)

lemma sub_accepted_trans:
  assumes "sub_accepted a b i1 d1" "sub_accepted b c i2 d2"
  shows "sub_accepted a c (i1 @ i2) (d1 @ d2)"
proof -
  from assms have
    n: "new_nested_comments c = new_nested_comments a"
    and f: "new_flat_comments c = new_flat_comments a @ (d1 @ d2)"
    and h: "hashable (i1 @ i2)" "hashable (map comment_id (d1 @ d2))"
    and s: "existing_nested_ids c = existing_nested_ids a \<union> set (id_keys (i1 @ i2))"
    and fs: "existing_flat_ids c = existing_flat_ids a \<union> set (id_keys (map comment_id (d1 @ d2)))"
    by (auto simp: sub_accepted_def hashable_append id_keys_append)
  from assms have d1: "distinct (id_keys (map comment_id d1))"
    "set (id_keys (map comment_id d1)) \<inter> existing_flat_ids a = {}"
    and d2: "distinct (id_keys (map comment_id d2))"
    "set (id_keys (map comment_id d2)) \<inter> existing_flat_ids b = {}"
    and b: "existing_flat_ids b = existing_flat_ids a \<union> set (id_keys (map comment_id d1))"
    by (simp_all add: sub_accepted_def)
  from d1 d2 b have d: "distinct (id_keys (map comment_id (d1 @ d2)))"
    by (auto simp: id_keys_append)
  from d1 d2 b have i: "set (id_keys (map comment_id (d1 @ d2))) \<inter> existing_flat_ids a = {}"
    by (auto simp: id_keys_append)
  from assms have "subseq (id_keys (map comment_id d1)) (id_keys i1)"
    "subseq (id_keys (map comment_id d2)) (id_keys i2)"
    by (simp_all add: sub_accepted_def)
  then have q: "subseq (id_keys (map comment_id (d1 @ d2))) (id_keys (i1 @ i2))"
    by (simp add: id_keys_append list_emb_append_mono)
  from n f h s fs d i q show ?thesis
    unfolding sub_accepted_def by blast
qed

lemma sub_accepted_skip:
  assumes "hash_key j = Some k" "k \<in> existing_nested_ids acc"
  shows "sub_accepted acc acc [j] []"
  using assms by (auto simp: sub_accepted_def hashable_Cons hashable_Nil)

lemma sub_accepted_step:
  assumes "hash_key j = Some k" "k \<notin> existing_nested_ids acc"
    "\<forall>fc. P fc \<longrightarrow> hash_key (comment_id fc) = Some k"
  shows "\<exists>df. set df \<subseteq> set fb \<and> sub_accepted acc
           (accept_flat k (find P fb) (acc\<lparr>existing_nested_ids := insert k (existing_nested_ids acc)\<rparr>))
           [j] df"
proof -
  let ?a = "acc\<lparr>existing_nested_ids := insert k (existing_nested_ids acc)\<rparr>"
  from accept_flat_result[OF refl assms(3), where fb=fb and acc="?a"]
  obtain df where df: "accept_flat k (find P fb) ?a =
       ?a\<lparr>new_flat_comments := new_flat_comments ?a @ df,
          existing_flat_ids := existing_flat_ids ?a \<union> set (id_keys (map comment_id df))\<rparr>"
     "df = [] \<or> (\<exists>fc. df = [fc] \<and> fc \<in> set fb \<and> P fc \<and> k \<notin> existing_flat_ids ?a)"
    by blast
  from df(2) show ?thesis
  proof
    assume "df = []"
    with df(1) assms(1) show ?thesis
      by (intro exI[of _ "[]"]) (simp add: sub_accepted_def hashable_Cons hashable_Nil)
  next
    assume "\<exists>fc. df = [fc] \<and> fc \<in> set fb \<and> P fc \<and> k \<notin> existing_flat_ids ?a"
    then obtain fc where fc: "df = [fc]" "fc \<in> set fb" "P fc" "k \<notin> existing_flat_ids acc"
      by auto
    from assms(3) fc(3) have hk: "hash_key (comment_id fc) = Some k" by blast
    with df(1) fc assms(1) show ?thesis
      by (intro exI[of _ "[fc]"]) (simp add: sub_accepted_def hashable_Cons hashable_Nil)
  qed
qed

lemma merge_sub_comments_None:
  "hash_key (comment_id s) = None \<Longrightarrow> merge_sub_comments fb (s # subs) acc = None"
  by (subst merge_sub_comments.simps) simp

lemma merge_sub_comments_known:
  "hash_key (comment_id s) = Some k \<Longrightarrow> k \<in> existing_nested_ids acc \<Longrightarrow>
   merge_sub_comments fb (s # subs) acc = merge_sub_comments fb subs acc"
  by (subst merge_sub_comments.simps) simp

lemma merge_sub_comments_new:
  "hash_key (comment_id s) = Some k \<Longrightarrow> k \<notin> existing_nested_ids acc \<Longrightarrow>
   merge_sub_comments fb (s # subs) acc =
     merge_sub_comments fb subs
       (accept_flat k (find (\<lambda>fc. py_eq_key (comment_id fc) k \<and> is_sub_comment fc) fb)
          (acc\<lparr>existing_nested_ids := insert k (existing_nested_ids acc)\<rparr>))"
  by (subst merge_sub_comments.simps) simp

lemma merge_sub_comments_result:
  assumes "merge_sub_comments fb subs acc = Some acc'"
  shows "\<exists>df. set df \<subseteq> set fb \<and> sub_accepted acc acc' (map comment_id subs) df"
  using assms
proof (induction subs arbitrary: acc)
  case Nil
  then have "acc' = acc" by simp
  then show ?case using sub_accepted_refl[of acc] by (intro exI[of _ "[]"]) simp
next
  case (Cons s subs)
  from Cons.prems obtain k where k: "hash_key (comment_id s) = Some k"
    by (cases "hash_key (comment_id s)") (simp_all only: merge_sub_comments_None option.distinct)
  show ?case
  proof (cases "k \<in> existing_nested_ids acc")
    case True
    from Cons.prems have "merge_sub_comments fb subs acc = Some acc'"
      unfolding merge_sub_comments_known[OF k True] .
    from Cons.IH[OF this] obtain df where
      df: "set df \<subseteq> set fb" "sub_accepted acc acc' (map comment_id subs) df" by blast
    from sub_accepted_trans[OF sub_accepted_skip[OF k True] df(2)] df(1)
    show ?thesis by (intro exI[of _ df]) simp
  next
    case False
    let ?P = "\<lambda>fc. py_eq_key (comment_id fc) k \<and> is_sub_comment fc"
    let ?a = "accept_flat k (find ?P fb) (acc\<lparr>existing_nested_ids := insert k (existing_nested_ids acc)\<rparr>)"
    from Cons.prems have "merge_sub_comments fb subs ?a = Some acc'"
      unfolding merge_sub_comments_new[OF k False] .
    from Cons.IH[OF this] obtain df2 where
      df2: "set df2 \<subseteq> set fb" "sub_accepted ?a acc' (map comment_id subs) df2" by blast
    have pk: "\<forall>fc. ?P fc \<longrightarrow> hash_key (comment_id fc) = Some k"
      by (simp add: py_eq_key_def)
    from sub_accepted_step[where P="?P" and fb=fb, OF k False pk] obtain df1 where
      df1: "set df1 \<subseteq> set fb" "sub_accepted acc ?a [comment_id s] df1"
      by (elim exE conjE)
    from sub_accepted_trans[OF df1(2) df2(2)] df1(1) df2(1)
    show ?thesis by (intro exI[of _ "df1 @ df2"]) simp
  qed
qed

lemma top_keys_subset: "set (id_keys (map comment_id dn)) \<subseteq> set (id_keys (nested_ids dn))"
  by (induction dn) (auto simp: nested_ids_Cons nested_ids_Nil id_keys_append split: option.splits)

lemma accepted_refl: "accepted acc acc [] []"
  by (simp add: accepted_def hashable_Nil nested_ids_Nil)

lemma accepted_trans:
  assumes "accepted a b n1 d1" "accepted b c n2 d2"
  shows "accepted a c (n1 @ n2) (d1 @ d2)"
proof -
  from assms have
    n: "new_nested_comments c = new_nested_comments a @ (n1 @ n2)"
    and f: "new_flat_comments c = new_flat_comments a @ (d1 @ d2)"
    and h: "hashable (nested_ids (n1 @ n2))" "hashable (map comment_id (d1 @ d2))"
    and s: "existing_nested_ids c = existing_nested_ids a \<union> set (id_keys (nested_ids (n1 @ n2)))"
    and fs: "existing_flat_ids c = existing_flat_ids a \<union> set (id_keys (map comment_id (d1 @ d2)))"
    by (auto simp: accepted_def hashable_append id_keys_append nested_ids_append)
  from assms have d1: "distinct (id_keys (map comment_id d1))"
    "set (id_keys (map comment_id d1)) \<inter> existing_flat_ids a = {}"
    and d2: "distinct (id_keys (map comment_id d2))"
    "set (id_keys (map comment_id d2)) \<inter> existing_flat_ids b = {}"
    and b: "existing_flat_ids b = existing_flat_ids a \<union> set (id_keys (map comment_id d1))"
    by (simp_all add: accepted_def)
  from d1 d2 b have d: "distinct (id_keys (map comment_id (d1 @ d2)))"
    by (auto simp: id_keys_append)
  from d1 d2 b have i: "set (id_keys (map comment_id (d1 @ d2))) \<inter> existing_flat_ids a = {}"
    by (auto simp: id_keys_append)
  from assms have t1: "distinct (id_keys (map comment_id n1))"
    "set (id_keys (map comment_id n1)) \<inter> existing_nested_ids a = {}"
    and t2: "distinct (id_keys (map comment_id n2))"
    "set (id_keys (map comment_id n2)) \<inter> existing_nested_ids b = {}"
    and bn: "existing_nested_ids b = existing_nested_ids a \<union> set (id_keys (nested_ids n1))"
    by (simp_all add: accepted_def)
  from t1 t2 bn top_keys_subset[of n1] have td: "distinct (id_keys (map comment_id (n1 @ n2)))"
    by (auto simp: id_keys_append)
  from t1 t2 bn have ti: "set (id_keys (map comment_id (n1 @ n2))) \<inter> existing_nested_ids a = {}"
    by (auto simp: id_keys_append)
  from assms have "subseq (id_keys (map comment_id d1)) (id_keys (nested_ids n1))"
    "subseq (id_keys (map comment_id d2)) (id_keys (nested_ids n2))"
    by (simp_all add: accepted_def)
  then have q: "subseq (id_keys (map comment_id (d1 @ d2))) (id_keys (nested_ids (n1 @ n2)))"
    by (simp add: id_keys_append nested_ids_append list_emb_append_mono)
  from n f h s fs d i td ti q show ?thesis
    unfolding accepted_def by blast
qed

lemma accepted_from_sub:
  assumes "hash_key (comment_id c) = Some k" "k \<notin> existing_nested_ids acc"
    "sub_accepted (acc\<lparr>new_nested_comments := new_nested_comments acc @ [c]\<rparr>) acc'
       (comment_id c # map comment_id (sub_comments c)) df"
  shows "accepted acc acc' [c] df"
  using assms
  by (simp add: accepted_def sub_accepted_def nested_ids_Cons nested_ids_Nil)

lemma merge_comment_None:
  "hash_key (comment_id c) = None \<Longrightarrow> merge_comment fb c acc = None"
  by (simp add: merge_comment_def)

lemma merge_comment_new:
  "hash_key (comment_id c) = Some k \<Longrightarrow> k \<notin> existing_nested_ids acc \<Longrightarrow>
   merge_comment fb c acc =
     merge_sub_comments fb (sub_comments c)
       (accept_flat k (find (\<lambda>fc. py_eq_key (comment_id fc) k \<and> \<not> is_sub_comment fc) fb)
          (acc\<lparr>new_nested_comments := new_nested_comments acc @ [c],
               existing_nested_ids := insert k (existing_nested_ids acc)\<rparr>))"
  by (simp add: merge_comment_def)

lemma merge_comment_accepted:
  assumes "merge_comment fb c acc = Some acc'"
  shows "\<exists>dn df. (dn = [] \<or> dn = [c]) \<and> set df \<subseteq> set fb \<and> accepted acc acc' dn df \<and>
           hash_key (comment_id c) \<in> Some ` existing_nested_ids acc'"
proof -
  from assms obtain k where k: "hash_key (comment_id c) = Some k"
    by (cases "hash_key (comment_id c)") (simp_all add: merge_comment_None)
  show ?thesis
  proof (cases "k \<in> existing_nested_ids acc")
    case True
    with assms k have "acc' = acc" by (simp add: merge_comment_known)
    with True k accepted_refl[of acc] show ?thesis
      by (intro exI[of _ "[]"]) auto
  next
    case False
    let ?P = "\<lambda>fc. py_eq_key (comment_id fc) k \<and> \<not> is_sub_comment fc"
    let ?base = "acc\<lparr>new_nested_comments := new_nested_comments acc @ [c]\<rparr>"
    let ?a = "accept_flat k (find ?P fb) (?base\<lparr>existing_nested_ids := insert k (existing_nested_ids ?base)\<rparr>)"
    from assms have m: "merge_sub_comments fb (sub_comments c) ?a = Some acc'"
      unfolding merge_comment_new[OF k False] by simp
    from merge_sub_comments_result[OF m] obtain df2 where
      df2: "set df2 \<subseteq> set fb" "sub_accepted ?a acc' (map comment_id (sub_comments c)) df2"
      by (elim exE conjE)
    have pk: "\<forall>fc. ?P fc \<longrightarrow> hash_key (comment_id fc) = Some k"
      by (simp add: py_eq_key_def)
    from False have f0: "k \<notin> existing_nested_ids ?base" by simp
    from sub_accepted_step[where P="?P" and fb=fb, OF k f0 pk] obtain df1 where
      df1: "set df1 \<subseteq> set fb" "sub_accepted ?base ?a [comment_id c] df1"
      by (elim exE conjE)
    from sub_accepted_trans[OF df1(2) df2(2)]
    have "sub_accepted ?base acc' (comment_id c # map comment_id (sub_comments c)) (df1 @ df2)"
      by simp
    from accepted_from_sub[OF k False this] have a: "accepted acc acc' [c] (df1 @ df2)" .
    then have "k \<in> existing_nested_ids acc'"
      using k by (simp add: accepted_def nested_ids_Cons nested_ids_Nil)
    with a df1(1) df2(1) k show ?thesis
      by (intro exI[of _ "[c]"] exI[of _ "df1 @ df2"]) auto
  qed
qed

lemma accepted_mono: "accepted a b dn df \<Longrightarrow> existing_nested_ids a \<subseteq> existing_nested_ids b"
  by (auto simp: accepted_def)

lemma merge_comments_accepted:
  assumes "merge_comments fb batch acc = Some acc'"
  shows "\<exists>dn df. subseq dn batch \<and> set df \<subseteq> set fb \<and> accepted acc acc' dn df \<and>
           (\<forall>c \<in> set batch. hash_key (comment_id c) \<in> Some ` existing_nested_ids acc')"
  using assms
proof (induction batch arbitrary: acc)
  case Nil
  then have "acc' = acc" by simp
  with accepted_refl[of acc] show ?case by (intro exI[of _ "[]"]) simp
next
  case (Cons c batch)
  from Cons.prems obtain a1 where a1: "merge_comment fb c acc = Some a1"
    "merge_comments fb batch a1 = Some acc'"
    by (cases "merge_comment fb c acc") simp_all
  from merge_comment_accepted[OF a1(1)] obtain dn1 df1 where
    1: "dn1 = [] \<or> dn1 = [c]" "set df1 \<subseteq> set fb" "accepted acc a1 dn1 df1"
       "hash_key (comment_id c) \<in> Some ` existing_nested_ids a1"
    by (elim exE conjE)
  from Cons.IH[OF a1(2)] obtain dn2 df2 where
    2: "subseq dn2 batch" "set df2 \<subseteq> set fb" "accepted a1 acc' dn2 df2"
       "\<forall>c \<in> set batch. hash_key (comment_id c) \<in> Some ` existing_nested_ids acc'"
    by (elim exE conjE)
  from accepted_trans[OF 1(3) 2(3)] have a: "accepted acc acc' (dn1 @ dn2) (df1 @ df2)" .
  from 1(1) 2(1) have s: "subseq (dn1 @ dn2) (c # batch)" by auto
  from 1(4) accepted_mono[OF 2(3)]
  have "hash_key (comment_id c) \<in> Some ` existing_nested_ids acc'" by auto
  with a s 1(2) 2(2) 2(4) show ?case
    by (intro exI[of _ "dn1 @ dn2"] exI[of _ "df1 @ df2"]) simp
qed

section \<open>Known identifiers are skipped\<close>

lemma subseq_set: "subseq xs ys \<Longrightarrow> set xs \<subseteq> set ys"
  by (auto dest: list_emb_set)

lemma merge_comments_mono:
  assumes "merge_comments fb xs acc = Some acc'"
  shows "existing_nested_ids acc \<subseteq> existing_nested_ids acc'"
proof -
  from merge_comments_accepted[OF assms] obtain dn df where "accepted acc acc' dn df"
    by (elim exE conjE)
  then show ?thesis by (rule accepted_mono)
qed

lemma merge_comments_drop_known:
  assumes "hash_key (comment_id c) = Some k" "k \<in> existing_nested_ids acc"
  shows "merge_comments fb (pre @ c # post) acc = merge_comments fb (pre @ post) acc"
proof (cases "merge_comments fb pre acc")
  case None
  then show ?thesis by (simp add: merge_comments_append)
next
  case (Some a1)
  from merge_comments_mono[OF Some] assms(2) have "k \<in> existing_nested_ids a1" by auto
  with assms(1) have "merge_comment fb c a1 = Some a1" by (simp add: merge_comment_known)
  with Some show ?thesis by (simp add: merge_comments_append)
qed

lemma merge_comments_all_known:
  assumes "\<forall>c \<in> set nb. hash_key (comment_id c) \<in> Some ` existing_nested_ids acc"
  shows "merge_comments fb nb acc = Some acc"
  using assms
proof (induction nb)
  case Nil
  then show ?case by simp
next
  case (Cons c nb)
  then obtain k where "hash_key (comment_id c) = Some k" "k \<in> existing_nested_ids acc"
    by auto
  then have "merge_comment fb c acc = Some acc" by (rule merge_comment_known)
  with Cons show ?case by simp
qed

lemma item_list_setdefault_empty: "item_list (setdefault_empty k d) k = item_list d k"
  by (simp add: setdefault_empty_def item_list_def update_conv' split: option.splits)

lemma item_list_extend_item: "item_list (extend_item k new d) k = item_list d k @ new"
  by (simp add: extend_item_def item_list_def update_conv')

text \<open>The three ways in which the handler can leave the sequences of an item.\<close>

lemma merge_batch_cases:
  obtains (skip) "nb = []" "fb = []" "merge_batch nid nb fb st = st"
  | (same) "item_list (all_comments_data (merge_batch nid nb fb st)) nid
               = item_list (all_comments_data st) nid"
           "item_list (all_comments_flat (merge_batch nid nb fb st)) nid
               = item_list (all_comments_flat st) nid"
  | (extend) acc where
      "hashable (nested_ids (item_list (all_comments_data st) nid))"
      "hashable (map comment_id (item_list (all_comments_flat st) nid))"
      "merge_comments fb nb
         \<lparr>existing_nested_ids = set (id_keys (nested_ids (item_list (all_comments_data st) nid))),
          existing_flat_ids = set (id_keys (map comment_id (item_list (all_comments_flat st) nid))),
          new_nested_comments = [], new_flat_comments = []\<rparr> = Some acc"
      "new_nested_comments acc \<noteq> []"
      "item_list (all_comments_data (merge_batch nid nb fb st)) nid
         = item_list (all_comments_data st) nid @ new_nested_comments acc"
      "item_list (all_comments_flat (merge_batch nid nb fb st)) nid
         = item_list (all_comments_flat st) nid @ new_flat_comments acc"
proof (cases "nb = [] \<and> fb = []")
  case True
  then show ?thesis using skip by (simp add: merge_batch_def)
next
  case ne: False
  let ?N = "item_list (all_comments_data st) nid"
  let ?F = "item_list (all_comments_flat st) nid"
  let ?acc0 = "\<lparr>existing_nested_ids = set (id_keys (nested_ids ?N)),
          existing_flat_ids = set (id_keys (map comment_id ?F)),
          new_nested_comments = [], new_flat_comments = []\<rparr>"
  show ?thesis
  proof (cases "hashable (nested_ids ?N) \<and> hashable (map comment_id ?F)")
    case False
    with ne have "item_list (all_comments_data (merge_batch nid nb fb st)) nid = ?N"
      "item_list (all_comments_flat (merge_batch nid nb fb st)) nid = ?F"
      by (auto simp: merge_batch_def Let_def item_list_setdefault_empty
            collect_nested_ids_eq add_ids_eq)
    then show ?thesis by (rule same)
  next
    case h: True
    show ?thesis
    proof (cases "merge_comments fb nb ?acc0")
      case None
      with ne h have "item_list (all_comments_data (merge_batch nid nb fb st)) nid = ?N"
        "item_list (all_comments_flat (merge_batch nid nb fb st)) nid = ?F"
        by (auto simp: merge_batch_def Let_def item_list_setdefault_empty
              collect_nested_ids_eq add_ids_eq)
      then show ?thesis by (rule same)
    next
      case (Some acc)
      show ?thesis
      proof (cases "new_nested_comments acc = []")
        case True
        with ne h Some have "item_list (all_comments_data (merge_batch nid nb fb st)) nid = ?N"
          "item_list (all_comments_flat (merge_batch nid nb fb st)) nid = ?F"
          by (auto simp: merge_batch_def Let_def item_list_setdefault_empty
                collect_nested_ids_eq add_ids_eq)
        then show ?thesis by (rule same)
      next
        case False
        with ne h Some have
          "item_list (all_comments_data (merge_batch nid nb fb st)) nid
             = ?N @ new_nested_comments acc"
          "item_list (all_comments_flat (merge_batch nid nb fb st)) nid
             = ?F @ new_flat_comments acc"
          by (auto simp: merge_batch_def Let_def item_list_setdefault_empty
                item_list_extend_item collect_nested_ids_eq add_ids_eq)
        with h Some False show ?thesis using extend by blast
      qed
    qed
  qed
qed

lemma merge_batch_all_known:
  assumes "\<forall>c \<in> set nb. hash_key (comment_id c) \<in>
             Some ` set (id_keys (map comment_id (item_list (all_comments_data st) nid)))"
  shows "item_list (all_comments_data (merge_batch nid nb fb st)) nid
           = item_list (all_comments_data st) nid \<and>
         item_list (all_comments_flat (merge_batch nid nb fb st)) nid
           = item_list (all_comments_flat st) nid"
proof (cases rule: merge_batch_cases[of nb fb nid st])
  case skip
  then show ?thesis by simp
next
  case same
  then show ?thesis by simp
next
  case (extend acc)
  let ?acc0 = "\<lparr>existing_nested_ids = set (id_keys (nested_ids (item_list (all_comments_data st) nid))),
          existing_flat_ids = set (id_keys (map comment_id (item_list (all_comments_flat st) nid))),
          new_nested_comments = [], new_flat_comments = []\<rparr>"
  from assms top_keys_subset[of "item_list (all_comments_data st) nid"]
  have "\<forall>c \<in> set nb. hash_key (comment_id c) \<in> Some ` existing_nested_ids ?acc0"
    by auto
  then have "merge_comments fb nb ?acc0 = Some ?acc0" by (rule merge_comments_all_known)
  with extend(3) have "acc = ?acc0" by simp
  then have "new_nested_comments acc = []" by simp
  with extend(4) show ?thesis by simp
qed

lemma merge_batch_drop_known:
  assumes "hash_key (comment_id c) = Some k"
    and "k \<in> set (id_keys (map comment_id (item_list (all_comments_data st) nid)))"
    and "fb \<noteq> []"
  shows "merge_batch nid (pre @ c # post) fb st = merge_batch nid (pre @ post) fb st"
proof -
  let ?N = "item_list (all_comments_data st) nid"
  have "merge_comments fb (pre @ c # post)
          \<lparr>existing_nested_ids = set (id_keys (nested_ids ?N)), existing_flat_ids = F,
           new_nested_comments = [], new_flat_comments = []\<rparr>
        = merge_comments fb (pre @ post)
          \<lparr>existing_nested_ids = set (id_keys (nested_ids ?N)), existing_flat_ids = F,
           new_nested_comments = [], new_flat_comments = []\<rparr>" for F
    using assms(2) top_keys_subset[of ?N]
    by (intro merge_comments_drop_known[OF assms(1)]) auto
  with assms(3) show ?thesis
    by (simp add: merge_batch_def Let_def item_list_setdefault_empty collect_nested_ids_eq
          add_ids_eq)
qed

lemma one_comment_eq:
  "one_comment =
     \<lparr>all_comments_data = [(''abc123'', [nested_rec ''p'' []])],
      all_comments_flat = [(''abc123'', [flat_rec ''abc123'' ''p''])]\<rparr>"
  unfolding one_comment_def
  by (simp add: handle_eval search_api_url contains_api_url)

lemma parse_reply_batch:
  "parse_comment_response (ok_body [entry ''p'' [entry ''r'' []]]) ''abc123''
     = (reply_batch_nested, reply_batch_flat, False)"
  by (simp add: parse_ok_body sample_defs reply_batch_nested_def reply_batch_flat_def)

text \<open>
  Claim C1, amended. When the stored nested sequence of an item has a top-level comment
  with identifier \<open>P\<close>, a later batch in which \<open>P\<close> carries a reply never seen before does
  not bring that reply in: the handler ends in the state it would reach if the record
  of \<open>P\<close> were absent from the nested batch, and when every top-level comment of the
  batch is already stored both sequences of the item stay as they were.
\<close>

theorem known_parent_reply_dropped:
  "(hash_key (comment_id c) = Some k \<and>
    k \<in> set (id_keys (map comment_id (item_list (all_comments_data st) nid))) \<and> fb \<noteq> [] \<longrightarrow>
      merge_batch nid (pre @ c # post) fb st = merge_batch nid (pre @ post) fb st) \<and>
   ((\<forall>c \<in> set nb. hash_key (comment_id c) \<in>
        Some ` set (id_keys (map comment_id (item_list (all_comments_data st) nid)))) \<longrightarrow>
      item_list (all_comments_data (merge_batch nid nb fb st)) nid
        = item_list (all_comments_data st) nid \<and>
      item_list (all_comments_flat (merge_batch nid nb fb st)) nid
        = item_list (all_comments_flat st) nid)"
  using merge_batch_drop_known [of c k st nid fb pre post] merge_batch_all_known [of nb st nid fb]
  by blast

theorem known_parent_reply_dropped_witness:
  "hash_key (comment_id (nested_rec ''p'' [''r''])) = Some (KStr ''p'') \<and>
   KStr ''p'' \<in> set (id_keys (map comment_id (item_list (all_comments_data one_comment) ''abc123''))) \<and>
   reply_batch_flat \<noteq> [] \<and>
   merge_batch ''abc123'' ([] @ nested_rec ''p'' [''r''] # []) reply_batch_flat one_comment
     = merge_batch ''abc123'' ([] @ []) reply_batch_flat one_comment \<and>
   map (hash_key \<circ> comment_id) reply_batch_nested = [Some (KStr ''p'')] \<and>
   item_list (all_comments_data (merge_batch ''abc123'' reply_batch_nested reply_batch_flat one_comment))
     ''abc123'' = [nested_rec ''p'' []] \<and>
   item_list (all_comments_flat (merge_batch ''abc123'' reply_batch_nested reply_batch_flat one_comment))
     ''abc123'' = [flat_rec ''abc123'' ''p'']"
proof -
  have 1: "hash_key (comment_id (nested_rec ''p'' [''r''])) = Some (KStr ''p'')"
    by (simp add: sample_defs)
  have 2: "KStr ''p'' \<in> set (id_keys (map comment_id
             (item_list (all_comments_data one_comment) ''abc123'')))"
    by (simp add: one_comment_eq item_list_def sample_defs)
  have 3: "reply_batch_flat \<noteq> []" by (simp add: reply_batch_flat_def)
  have 4: "\<forall>c \<in> set reply_batch_nested. hash_key (comment_id c) \<in>
        Some ` set (id_keys (map comment_id (item_list (all_comments_data one_comment) ''abc123'')))"
    by (simp add: one_comment_eq item_list_def sample_defs reply_batch_nested_def)
  have 5: "item_list (all_comments_data one_comment) ''abc123'' = [nested_rec ''p'' []]"
    "item_list (all_comments_flat one_comment) ''abc123'' = [flat_rec ''abc123'' ''p'']"
    by (simp_all add: one_comment_eq item_list_def)
  note t = known_parent_reply_dropped
    [of "nested_rec ''p'' [''r'']" "KStr ''p''" one_comment "''abc123''" reply_batch_flat
        "[]" "[]" reply_batch_nested]
  from t 1 2 3 have 6:
    "merge_batch ''abc123'' ([] @ nested_rec ''p'' [''r''] # []) reply_batch_flat one_comment
     = merge_batch ''abc123'' ([] @ []) reply_batch_flat one_comment"
    by blast
  from t 4 have 7:
    "item_list (all_comments_data (merge_batch ''abc123'' reply_batch_nested reply_batch_flat one_comment))
       ''abc123'' = item_list (all_comments_data one_comment) ''abc123'' \<and>
     item_list (all_comments_flat (merge_batch ''abc123'' reply_batch_nested reply_batch_flat one_comment))
       ''abc123'' = item_list (all_comments_flat one_comment) ''abc123''"
    by blast
  have 8: "map (hash_key \<circ> comment_id) reply_batch_nested = [Some (KStr ''p'')]"
    by (simp add: reply_batch_nested_def sample_defs)
  from 1 2 3 6 7 8 show ?thesis unfolding 5 by blast
qed

text \<open>
  Claim C1 as stated fails: after a response with the comment \<open>p\<close>, a response in which
  \<open>p\<close> carries the new reply \<open>r\<close> leaves both sequences as they were; \<open>r\<close> is in neither.
\<close>

theorem new_reply_under_known_parent_counterexample:
  "one_comment =
     \<lparr>all_comments_data = [(''abc123'', [nested_rec ''p'' []])],
      all_comments_flat = [(''abc123'', [flat_rec ''abc123'' ''p''])]\<rparr> \<and>
   handle_comment_api_response (api_url ''abc123'')
     (Some (ok_body [entry ''p'' [entry ''r'' []]])) one_comment
     = \<lparr>all_comments_data = [(''abc123'', [nested_rec ''p'' []])],
        all_comments_flat = [(''abc123'', [flat_rec ''abc123'' ''p''])]\<rparr>"
  by (simp add: one_comment_eq handle_eval search_api_url contains_api_url)

section \<open>Arrival order\<close>

lemma key_in_id_keys: "x \<in> set xs \<Longrightarrow> hash_key x = Some k \<Longrightarrow> k \<in> set (id_keys xs)"
  by (induction xs) (auto split: option.splits)

lemma id_keys_hashable_Cons:
  "hash_key x = Some k \<Longrightarrow> id_keys (x # xs) = k # id_keys xs"
  by simp

lemma subseq_id_keys: "subseq xs ys \<Longrightarrow> subseq (id_keys xs) (id_keys ys)"
  by (induction rule: list_emb.induct) (auto split: option.splits)

lemma subseq_nested_ids: "subseq dn nb \<Longrightarrow> subseq (nested_ids dn) (nested_ids nb)"
proof (induction rule: list_emb.induct)
  case (list_emb_Nil ys)
  then show ?case by (simp add: nested_ids_Nil)
next
  case (list_emb_Cons xs ys y)
  then have "subseq (nested_ids xs)
      ((comment_id y # map comment_id (sub_comments y)) @ nested_ids ys)"
    by (intro subseq_drop_many)
  then show ?case by (simp add: nested_ids_Cons)
next
  case (list_emb_Cons2 x y xs ys)
  then show ?case by (simp add: nested_ids_Cons list_emb_append_mono)
qed

lemma subseq_by_keys:
  assumes "distinct (id_keys (map comment_id fb))"
    and "set df \<subseteq> set fb"
    and "hashable (map comment_id df)"
    and "subseq (id_keys (map comment_id df)) (id_keys (map comment_id fb))"
  shows "subseq df fb"
  using assms
proof (induction fb arbitrary: df)
  case Nil
  then show ?case by simp
next
  case (Cons y ys)
  have keys_in: "d \<in> set df \<Longrightarrow> \<exists>k. hash_key (comment_id d) = Some k \<and>
                   k \<in> set (id_keys (map comment_id df))" for d
    using Cons.prems(3) by (induction df) (auto simp: hashable_Cons split: option.splits)
  show ?case
  proof (cases "hash_key (comment_id y)")
    case None
    have "y \<notin> set df" using keys_in[of y] None by auto
    with Cons.prems(2) have "set df \<subseteq> set ys" by auto
    moreover from None Cons.prems have "distinct (id_keys (map comment_id ys))"
      "subseq (id_keys (map comment_id df)) (id_keys (map comment_id ys))" by simp_all
    ultimately have "subseq df ys" using Cons.IH Cons.prems(3) by blast
    then show ?thesis by (rule list_emb_Cons)
  next
    case (Some k)
    with Cons.prems(1) have k: "k \<notin> set (id_keys (map comment_id ys))"
      "distinct (id_keys (map comment_id ys))" by simp_all
    show ?thesis
    proof (cases df)
      case Nil
      then show ?thesis by simp
    next
      case (Cons d ds)
      with Cons.prems(3) obtain kd where kd: "hash_key (comment_id d) = Some kd"
        "hashable (map comment_id ds)"
        by (auto simp: hashable_Cons)
      have ds_keys: "x \<in> set ds \<Longrightarrow> \<exists>kx. hash_key (comment_id x) = Some kx \<and>
                   kx \<in> set (id_keys (map comment_id ds))" for x
        using kd(2) by (induction ds) (auto simp: hashable_Cons split: option.splits)
      show ?thesis
      proof (cases "kd = k")
        case True
        with Cons.prems(4) Some kd Cons have s: "subseq (id_keys (map comment_id ds))
            (id_keys (map comment_id ys))" by simp
        have "d \<notin> set ys"
        proof
          assume "d \<in> set ys"
          then have "kd \<in> set (id_keys (map comment_id ys))"
            using kd(1) key_in_id_keys[of "comment_id d" "map comment_id ys" kd] by auto
          with True k show False by simp
        qed
        with Cons.prems(2) Cons have dy: "d = y" by auto
        have "set ds \<subseteq> set ys"
        proof
          fix x assume x: "x \<in> set ds"
          from ds_keys[OF x] obtain kx where kx: "hash_key (comment_id x) = Some kx"
            "kx \<in> set (id_keys (map comment_id ds))" by blast
          with subseq_set[OF s] k have "kx \<noteq> k" by auto
          with kx Some have "x \<noteq> y" by auto
          with x Cons.prems(2) Cons show "x \<in> set ys" by auto
        qed
        from Cons.IH[OF k(2) this kd(2) s] dy Cons show ?thesis by simp
      next
        case False
        with Cons.prems(4) Some kd Cons have s: "subseq (id_keys (map comment_id df))
            (id_keys (map comment_id ys))" by simp
        have "set df \<subseteq> set ys"
        proof
          fix x assume x: "x \<in> set df"
          from keys_in[OF x] obtain kx where kx: "hash_key (comment_id x) = Some kx"
            "kx \<in> set (id_keys (map comment_id df))" by blast
          with subseq_set[OF s] k have "kx \<noteq> k" by auto
          with kx Some have "x \<noteq> y" by auto
          with x Cons.prems(2) show "x \<in> set ys" by auto
        qed
        from Cons.IH[OF k(2) this Cons.prems(3) s] show ?thesis by (rule list_emb_Cons)
      qed
    qed
  qed
qed

lemma parse_sub_comments_ids:
  "parse_sub_comments nid parent ss = (subs, flats, ok) \<Longrightarrow>
   map comment_id flats = map comment_id subs"
proof (induction ss arbitrary: subs flats ok)
  case Nil
  then show ?case by simp
next
  case (Cons s ss)
  then show ?case
    by (auto simp: flat_sub_comment_def split: option.splits prod.splits)
qed

lemma parse_comments_ids:
  "parse_comments nid cs = (N, F, ok) \<Longrightarrow> prefix (nested_ids N) (map comment_id F)"
proof (induction cs arbitrary: N F ok)
  case Nil
  then show ?case by (simp add: nested_ids_Nil)
next
  case (Cons c cs)
  then show ?case
    by (auto simp: nested_ids_Nil nested_ids_Cons flat_comment_def comment_data_def
          dest: parse_sub_comments_ids split: option.splits prod.splits bool.splits)
qed

lemma parse_comment_response_ids:
  "parse_comment_response body nid = (N, F, w) \<Longrightarrow> prefix (nested_ids N) (map comment_id F)"
  by (auto simp: parse_comment_response_def nested_ids_Nil dest: parse_comments_ids
        split: option.splits if_splits prod.splits)

lemma merge_batch_introduced:
  "item_list (all_comments_data (merge_batch nid nb fb st)) nid
     = item_list (all_comments_data st) nid @ introduced_nested nid st (merge_batch nid nb fb st) \<and>
   item_list (all_comments_flat (merge_batch nid nb fb st)) nid
     = item_list (all_comments_flat st) nid @ introduced_flat nid st (merge_batch nid nb fb st) \<and>
   subseq (introduced_nested nid st (merge_batch nid nb fb st)) nb \<and>
   set (introduced_flat nid st (merge_batch nid nb fb st)) \<subseteq> set fb \<and>
   hashable (map comment_id (introduced_flat nid st (merge_batch nid nb fb st))) \<and>
   subseq (id_keys (map comment_id (introduced_flat nid st (merge_batch nid nb fb st))))
     (id_keys (nested_ids (introduced_nested nid st (merge_batch nid nb fb st))))"
proof (cases rule: merge_batch_cases[of nb fb nid st])
  case skip
  then show ?thesis
    by (simp add: introduced_nested_def introduced_flat_def hashable_Nil nested_ids_Nil)
next
  case same
  then show ?thesis
    by (simp add: introduced_nested_def introduced_flat_def hashable_Nil nested_ids_Nil)
next
  case (extend acc)
  from merge_comments_accepted[OF extend(3)] obtain dn df where
    a: "subseq dn nb" "set df \<subseteq> set fb"
       "accepted \<lparr>existing_nested_ids = set (id_keys (nested_ids (item_list (all_comments_data st) nid))),
          existing_flat_ids = set (id_keys (map comment_id (item_list (all_comments_flat st) nid))),
          new_nested_comments = [], new_flat_comments = []\<rparr> acc dn df"
    by (elim exE conjE)
  from a(3) have n: "new_nested_comments acc = dn" "new_flat_comments acc = df"
    "hashable (map comment_id df)"
    "subseq (id_keys (map comment_id df)) (id_keys (nested_ids dn))"
    by (simp_all add: accepted_def)
  from extend(5,6) n(1,2) have i: "introduced_nested nid st (merge_batch nid nb fb st) = dn"
    "introduced_flat nid st (merge_batch nid nb fb st) = df"
    by (simp_all add: introduced_nested_def introduced_flat_def)
  from extend(5,6) n a(1,2) show ?thesis unfolding i by simp
qed

lemma parse_shared_reply:
  "parse_comment_response
     (ok_body [entry ''p'' [entry ''r'' []], entry ''q'' [entry ''r'' []]]) ''abc123''
     = (shared_reply_nested, shared_reply_flat, False)"
  by (simp add: parse_ok_body sample_defs shared_reply_nested_def shared_reply_flat_def)

lemma handle_api_url:
  "handle_comment_api_response (api_url ''abc123'') (Some body) st =
     (case parse_comment_response body ''abc123'' of
        (nb, fb, w) \<Rightarrow> merge_batch ''abc123'' nb fb st)"
  by (simp add: handle_comment_api_response_def search_api_url contains_api_url)

text \<open>
  Claim C5, amended. The merge of a response only appends to the two sequences of the
  item, so of two responses merged one after the other every record introduced by the
  first precedes every record introduced by the second, in both sequences. Within one
  merge the accepted nested records keep the relative order they have in the parsed
  batch, and the accepted flat rows are rows of the parsed batch in the order in which
  their identifiers occur in the accepted nested records; they keep the relative order
  of the parsed flat batch whenever no identifier occurs twice in it.
\<close>

theorem merge_preserves_arrival_order:
  "item_list (all_comments_data (merge_batch nid nb2 fb2 (merge_batch nid nb1 fb1 st))) nid
     = item_list (all_comments_data st) nid
         @ introduced_nested nid st (merge_batch nid nb1 fb1 st)
         @ introduced_nested nid (merge_batch nid nb1 fb1 st)
             (merge_batch nid nb2 fb2 (merge_batch nid nb1 fb1 st)) \<and>
   item_list (all_comments_flat (merge_batch nid nb2 fb2 (merge_batch nid nb1 fb1 st))) nid
     = item_list (all_comments_flat st) nid
         @ introduced_flat nid st (merge_batch nid nb1 fb1 st)
         @ introduced_flat nid (merge_batch nid nb1 fb1 st)
             (merge_batch nid nb2 fb2 (merge_batch nid nb1 fb1 st)) \<and>
   subseq (introduced_nested nid st (merge_batch nid nb1 fb1 st)) nb1 \<and>
   set (introduced_flat nid st (merge_batch nid nb1 fb1 st)) \<subseteq> set fb1 \<and>
   subseq (id_keys (map comment_id (introduced_flat nid st (merge_batch nid nb1 fb1 st))))
     (id_keys (nested_ids (introduced_nested nid st (merge_batch nid nb1 fb1 st)))) \<and>
   (parse_comment_response body nid = (nb1, fb1, w) \<and>
    distinct (id_keys (map comment_id fb1)) \<longrightarrow>
      subseq (introduced_flat nid st (merge_batch nid nb1 fb1 st)) fb1)"
proof -
  let ?st1 = "merge_batch nid nb1 fb1 st"
  let ?st2 = "merge_batch nid nb2 fb2 ?st1"
  note m1 = merge_batch_introduced[of nid nb1 fb1 st]
  note m2 = merge_batch_introduced[of nid nb2 fb2 ?st1]
  from m1 m2 have n: "item_list (all_comments_data ?st2) nid
     = item_list (all_comments_data st) nid @ introduced_nested nid st ?st1
         @ introduced_nested nid ?st1 ?st2"
    by (metis append.assoc)
  from m1 m2 have f: "item_list (all_comments_flat ?st2) nid
     = item_list (all_comments_flat st) nid @ introduced_flat nid st ?st1
         @ introduced_flat nid ?st1 ?st2"
    by (metis append.assoc)
  have o: "subseq (introduced_flat nid st ?st1) fb1"
    if p: "parse_comment_response body nid = (nb1, fb1, w)"
      and d: "distinct (id_keys (map comment_id fb1))"
  proof -
    from parse_comment_response_ids[OF p]
    have "subseq (nested_ids nb1) (map comment_id fb1)" by (rule prefix_imp_subseq)
    moreover from m1 have "subseq (nested_ids (introduced_nested nid st ?st1)) (nested_ids nb1)"
      by (intro subseq_nested_ids) simp
    ultimately have "subseq (nested_ids (introduced_nested nid st ?st1)) (map comment_id fb1)"
      by (rule subseq_order.trans[rotated])
    then have "subseq (id_keys (nested_ids (introduced_nested nid st ?st1)))
                 (id_keys (map comment_id fb1))"
      by (rule subseq_id_keys)
    with m1 have "subseq (id_keys (map comment_id (introduced_flat nid st ?st1)))
                 (id_keys (map comment_id fb1))"
      by (meson subseq_order.trans)
    with d m1 show ?thesis by (intro subseq_by_keys) simp_all
  qed
  from n f m1 o show ?thesis by blast
qed

lemma merge_shared_reply:
  "merge_batch ''abc123'' shared_reply_nested shared_reply_flat one_comment =
     \<lparr>all_comments_data = [(''abc123'', [nested_rec ''p'' [], nested_rec ''q'' [''r'']])],
      all_comments_flat =
        [(''abc123'', [flat_rec ''abc123'' ''p'', flat_rec ''abc123'' ''q'',
                       flat_reply_rec ''abc123'' ''p'' ''r''])]\<rparr>"
  by (simp add: one_comment_eq shared_reply_nested_def shared_reply_flat_def handle_eval)

theorem merge_preserves_arrival_order_witness:
  "parse_comment_response (ok_body [entry ''p'' [entry ''r'' []]]) ''abc123''
     = (reply_batch_nested, reply_batch_flat, False) \<and>
   distinct (id_keys (map comment_id reply_batch_flat)) \<and>
   item_list (all_comments_data
      (merge_batch ''abc123'' shared_reply_nested shared_reply_flat
         (merge_batch ''abc123'' reply_batch_nested reply_batch_flat init_state))) ''abc123''
     = [] @ [nested_rec ''p'' [''r'']] @ [nested_rec ''q'' [''r'']] \<and>
   item_list (all_comments_flat
      (merge_batch ''abc123'' shared_reply_nested shared_reply_flat
         (merge_batch ''abc123'' reply_batch_nested reply_batch_flat init_state))) ''abc123''
     = [] @ [flat_rec ''abc123'' ''p'', flat_reply_rec ''abc123'' ''p'' ''r'']
          @ [flat_rec ''abc123'' ''q''] \<and>
   subseq [nested_rec ''p'' [''r'']] reply_batch_nested \<and>
   subseq [flat_rec ''abc123'' ''p'', flat_reply_rec ''abc123'' ''p'' ''r''] reply_batch_flat"
proof -
  let ?st1 = "merge_batch ''abc123'' reply_batch_nested reply_batch_flat init_state"
  let ?st2 = "merge_batch ''abc123'' shared_reply_nested shared_reply_flat ?st1"
  have 1: "?st1 = \<lparr>all_comments_data = [(''abc123'', [nested_rec ''p'' [''r'']])],
      all_comments_flat = [(''abc123'', [flat_rec ''abc123'' ''p'',
                                         flat_reply_rec ''abc123'' ''p'' ''r''])]\<rparr>"
    by (simp add: reply_batch_nested_def reply_batch_flat_def handle_eval)
  have 2: "?st2 = \<lparr>all_comments_data =
        [(''abc123'', [nested_rec ''p'' [''r''], nested_rec ''q'' [''r'']])],
      all_comments_flat = [(''abc123'', [flat_rec ''abc123'' ''p'',
          flat_reply_rec ''abc123'' ''p'' ''r'', flat_rec ''abc123'' ''q''])]\<rparr>"
    unfolding 1 by (simp add: shared_reply_nested_def shared_reply_flat_def handle_eval)
  have i: "introduced_nested ''abc123'' init_state ?st1 = [nested_rec ''p'' [''r'']]"
    "introduced_flat ''abc123'' init_state ?st1
       = [flat_rec ''abc123'' ''p'', flat_reply_rec ''abc123'' ''p'' ''r'']"
    "introduced_nested ''abc123'' ?st1 ?st2 = [nested_rec ''q'' [''r'']]"
    "introduced_flat ''abc123'' ?st1 ?st2 = [flat_rec ''abc123'' ''q'']"
    "item_list (all_comments_data init_state) ''abc123'' = []"
    "item_list (all_comments_flat init_state) ''abc123'' = []"
    unfolding 2 unfolding 1
    by (simp_all add: introduced_nested_def introduced_flat_def item_list_def init_state_def)
  have d: "distinct (id_keys (map comment_id reply_batch_flat))"
    by (simp add: reply_batch_flat_def sample_defs)
  from merge_preserves_arrival_order
         [of "''abc123''" shared_reply_nested shared_reply_flat reply_batch_nested
             reply_batch_flat init_state "ok_body [entry ''p'' [entry ''r'' []]]" False]
       parse_reply_batch d
  show ?thesis unfolding i by blast
qed

text \<open>
  Claim C5 as stated fails for the flat sequence: with the comment \<open>p\<close> stored, a batch in
  which \<open>p\<close> and the new comment \<open>q\<close> both carry a reply with the identifier \<open>r\<close> makes the
  handler append the row of \<open>q\<close> and then the reply row listed under \<open>p\<close>, which precedes
  the row of \<open>q\<close> in the parsed batch.
\<close>

theorem flat_order_counterexample:
  "parse_comment_response
     (ok_body [entry ''p'' [entry ''r'' []], entry ''q'' [entry ''r'' []]]) ''abc123''
     = (shared_reply_nested, shared_reply_flat, False) \<and>
   introduced_flat ''abc123'' one_comment
     (handle_comment_api_response (api_url ''abc123'')
        (Some (ok_body [entry ''p'' [entry ''r'' []], entry ''q'' [entry ''r'' []]])) one_comment)
     = [flat_rec ''abc123'' ''q'', flat_reply_rec ''abc123'' ''p'' ''r''] \<and>
   \<not> subseq [flat_rec ''abc123'' ''q'', flat_reply_rec ''abc123'' ''p'' ''r'']
         shared_reply_flat"
proof -
  have "\<not> subseq [flat_rec ''abc123'' ''q'', flat_reply_rec ''abc123'' ''p'' ''r'']
         shared_reply_flat"
    by (simp add: shared_reply_flat_def sample_defs)
  moreover have "introduced_flat ''abc123'' one_comment
     (merge_batch ''abc123'' shared_reply_nested shared_reply_flat one_comment)
     = [flat_rec ''abc123'' ''q'', flat_reply_rec ''abc123'' ''p'' ''r'']"
    unfolding merge_shared_reply
    by (simp add: introduced_flat_def one_comment_eq item_list_def)
  ultimately show ?thesis
    by (simp add: handle_api_url parse_shared_reply)
qed

section \<open>What a skipped record leaves behind\<close>






section \<open>Repeated responses and the consistency of the two sequences\<close>

lemma setdefault_empty_present: "map_of d k = Some v \<Longrightarrow> setdefault_empty k d = d"
  by (simp add: setdefault_empty_def)

lemma map_of_setdefault_empty_key:
  "map_of (setdefault_empty k d) k = Some (item_list d k)"
  by (simp add: setdefault_empty_def item_list_def update_conv' split: option.splits)

lemma map_of_extend_item_key:
  "map_of (extend_item k new d) k = Some (item_list d k @ new)"
  by (simp add: extend_item_def update_conv')

lemma setdefault_empty_idem:
  "setdefault_empty k (setdefault_empty k d) = setdefault_empty k d"
  using map_of_setdefault_empty_key by (rule setdefault_empty_present)

lemma setdefault_empty_extend_item:
  "setdefault_empty k (extend_item k new d) = extend_item k new d"
  using map_of_extend_item_key by (rule setdefault_empty_present)

lemma merge_batch_after_init:
  "merge_batch nid nb fb
     (st\<lparr>all_comments_data := setdefault_empty nid (all_comments_data st),
         all_comments_flat := setdefault_empty nid (all_comments_flat st)\<rparr>)
   = (if nb = [] \<and> fb = []
      then st\<lparr>all_comments_data := setdefault_empty nid (all_comments_data st),
               all_comments_flat := setdefault_empty nid (all_comments_flat st)\<rparr>
      else merge_batch nid nb fb st)"
  by (simp add: merge_batch_def setdefault_empty_idem item_list_setdefault_empty Let_def)

lemma merge_batch_idem: "merge_batch nid nb fb (merge_batch nid nb fb st) = merge_batch nid nb fb st"
proof (cases "nb = [] \<and> fb = []")
  case True
  then show ?thesis by (simp add: merge_batch_def)
next
  case ne: False
  let ?N = "item_list (all_comments_data st) nid"
  let ?F = "item_list (all_comments_flat st) nid"
  let ?st1 = "st\<lparr>all_comments_data := setdefault_empty nid (all_comments_data st),
                  all_comments_flat := setdefault_empty nid (all_comments_flat st)\<rparr>"
  let ?acc0 = "\<lparr>existing_nested_ids = set (id_keys (nested_ids ?N)),
          existing_flat_ids = set (id_keys (map comment_id ?F)),
          new_nested_comments = [], new_flat_comments = []\<rparr>"
  have init: "merge_batch nid nb fb st = ?st1 \<Longrightarrow> ?thesis"
    using ne by (simp add: merge_batch_after_init)
  show ?thesis
  proof (cases "hashable (nested_ids ?N) \<and> hashable (map comment_id ?F)")
    case False
    with ne have "merge_batch nid nb fb st = ?st1"
      by (auto simp: merge_batch_def Let_def item_list_setdefault_empty
            collect_nested_ids_eq add_ids_eq)
    then show ?thesis by (rule init)
  next
    case h: True
    show ?thesis
    proof (cases "merge_comments fb nb ?acc0")
      case None
      with ne h have "merge_batch nid nb fb st = ?st1"
        by (auto simp: merge_batch_def Let_def item_list_setdefault_empty
              collect_nested_ids_eq add_ids_eq)
      then show ?thesis by (rule init)
    next
      case (Some acc)
      show ?thesis
      proof (cases "new_nested_comments acc = []")
        case True
        with ne h Some have "merge_batch nid nb fb st = ?st1"
          by (auto simp: merge_batch_def Let_def item_list_setdefault_empty
                collect_nested_ids_eq add_ids_eq)
        then show ?thesis by (rule init)
      next
        case False
        let ?st2 = "?st1\<lparr>all_comments_data :=
                        extend_item nid (new_nested_comments acc) (all_comments_data ?st1),
                      all_comments_flat :=
                        extend_item nid (new_flat_comments acc) (all_comments_flat ?st1)\<rparr>"
        from ne h Some False have m: "merge_batch nid nb fb st = ?st2"
          by (auto simp: merge_batch_def Let_def item_list_setdefault_empty
                collect_nested_ids_eq add_ids_eq)
        from merge_comments_accepted[OF Some] obtain dn df where
          a: "accepted ?acc0 acc dn df"
             "\<forall>c \<in> set nb. hash_key (comment_id c) \<in> Some ` existing_nested_ids acc"
          by (elim exE conjE)
        from a(1) have n: "new_nested_comments acc = dn" "new_flat_comments acc = df"
          "hashable (nested_ids dn)" "hashable (map comment_id df)"
          "existing_nested_ids acc = set (id_keys (nested_ids ?N)) \<union> set (id_keys (nested_ids dn))"
          "existing_flat_ids acc = set (id_keys (map comment_id ?F)) \<union> set (id_keys (map comment_id df))"
          by (simp_all add: accepted_def)
        let ?acc1 = "\<lparr>existing_nested_ids = existing_nested_ids acc,
          existing_flat_ids = existing_flat_ids acc,
          new_nested_comments = [], new_flat_comments = []\<rparr>"
        from a(2) have "merge_comments fb nb ?acc1 = Some ?acc1"
          by (intro merge_comments_all_known) simp
        with ne h n have "merge_batch nid nb fb ?st2 = ?st2"
          by (simp add: merge_batch_def Let_def setdefault_empty_extend_item
                item_list_extend_item item_list_setdefault_empty collect_nested_ids_eq
                add_ids_eq nested_ids_append hashable_append id_keys_append)
        with m show ?thesis by simp
      qed
    qed
  qed
qed

lemma handle_idem:
  "handle_comment_api_response url body (handle_comment_api_response url body st)
     = handle_comment_api_response url body st"
  by (simp add: handle_comment_api_response_def merge_batch_idem split: option.splits prod.splits)

lemma parse_sub_comments_matched:
  "parse_sub_comments nid parent ss = (subs, flats, ok) \<Longrightarrow>
   \<forall>s \<in> set subs. \<exists>fc \<in> set flats. comment_id fc = comment_id s \<and> is_sub_comment fc"
proof (induction ss arbitrary: subs flats ok)
  case Nil
  then show ?case by simp
next
  case (Cons s ss)
  show ?case
  proof (cases "extract_fields s")
    case None
    with Cons.prems show ?thesis by simp
  next
    case (Some f)
    obtain subs' flats' ok' where r: "parse_sub_comments nid parent ss = (subs', flats', ok')"
      by (cases "parse_sub_comments nid parent ss") auto
    with Some Cons.prems have e: "subs = f # subs'" "flats = flat_sub_comment nid parent f # flats'"
      by simp_all
    from Cons.IH[OF r] show ?thesis unfolding e
      by (auto simp: flat_sub_comment_def)
  qed
qed

lemma matched_Nil: "matched [] fb"
  by (simp add: matched_def)

lemma matched_Cons:
  "matched (c # nb) fb \<longleftrightarrow>
     (\<exists>fc \<in> set fb. comment_id fc = comment_id c \<and> \<not> is_sub_comment fc) \<and>
     (\<forall>s \<in> set (sub_comments c).
           \<exists>fc \<in> set fb. comment_id fc = comment_id s \<and> is_sub_comment fc) \<and>
     matched nb fb"
  by (auto simp: matched_def)

lemma matched_mono: "matched nb fb \<Longrightarrow> set fb \<subseteq> set fb' \<Longrightarrow> matched nb fb'"
  unfolding matched_def by blast

lemma parse_comments_matched:
  "parse_comments nid cs = (N, F, ok) \<Longrightarrow> matched N F"
proof (induction cs arbitrary: N F ok)
  case Nil
  then show ?case by (simp add: matched_Nil)
next
  case (Cons c cs)
  show ?case
  proof (cases "N = []")
    case True
    then show ?thesis by (simp add: matched_Nil)
  next
    case False
    with Cons.prems obtain f ss subs flats N1 F1 where
      x: "extract_fields c = Some f"
         "parse_sub_comments nid (comment_id f) ss = (subs, flats, True)"
         "parse_comments nid cs = (N1, F1, ok)"
         "N = comment_data f subs # N1" "F = (flat_comment nid f # flats) @ F1"
      by (auto split: option.splits prod.splits bool.splits)
    from Cons.IH[OF x(3)] have "matched N1 F" unfolding x(5)
      by (rule matched_mono) auto
    moreover from parse_sub_comments_matched[OF x(2)]
    have "\<forall>s \<in> set subs. \<exists>fc \<in> set F. comment_id fc = comment_id s \<and> is_sub_comment fc"
      unfolding x(5) by auto
    moreover have "\<exists>fc \<in> set F. comment_id fc = comment_id (comment_data f subs) \<and>
        \<not> is_sub_comment fc"
      unfolding x(5) by (auto simp: flat_comment_def comment_data_def)
    ultimately show ?thesis unfolding x(4)
      by (simp add: matched_Cons comment_data_def)
  qed
qed

lemma parse_comment_response_matched:
  "parse_comment_response body nid = (N, F, w) \<Longrightarrow> matched N F"
  by (auto simp: parse_comment_response_def matched_Nil dest: parse_comments_matched
        split: option.splits if_splits prod.splits)

lemma find_exists: "\<exists>x \<in> set xs. P x \<Longrightarrow> \<exists>y. find P xs = Some y"
  by (cases "find P xs") (auto simp: find_None_iff)

lemma accept_flat_ids:
  "existing_nested_ids (accept_flat k found a) = existing_nested_ids a"
  "existing_flat_ids (accept_flat k (Some fc) a) = insert k (existing_flat_ids a)"
  "existing_flat_ids (accept_flat k None a) = existing_flat_ids a"
  by (auto simp: accept_flat_def split: option.splits)

lemma sync_step:
  assumes "existing_nested_ids a = insert k S"
    and "existing_flat_ids a = S - {KNaN}"
    and "\<exists>fc \<in> set fb. hash_key (comment_id fc) = Some k \<and> Q fc"
  shows "existing_flat_ids
           (accept_flat k (find (\<lambda>fc. py_eq_key (comment_id fc) k \<and> Q fc) fb) a)
         = existing_nested_ids
             (accept_flat k (find (\<lambda>fc. py_eq_key (comment_id fc) k \<and> Q fc) fb) a) - {KNaN}"
proof (cases "k = KNaN")
  case True
  then have "find (\<lambda>fc. py_eq_key (comment_id fc) k \<and> Q fc) fb = None"
    by (simp add: py_eq_key_def find_None_iff)
  with assms(1,2) True show ?thesis by (auto simp: accept_flat_ids)
next
  case False
  with assms(3) have "\<exists>fc \<in> set fb. py_eq_key (comment_id fc) k \<and> Q fc"
    by (simp add: py_eq_key_def)
  from find_exists[of fb "\<lambda>fc. py_eq_key (comment_id fc) k \<and> Q fc", OF this]
  obtain fc where "find (\<lambda>fc. py_eq_key (comment_id fc) k \<and> Q fc) fb = Some fc"
    by (elim exE)
  with assms(1,2) False show ?thesis by (auto simp: accept_flat_ids)
qed

lemma merge_sub_comments_sync:
  assumes "merge_sub_comments fb subs acc = Some acc'"
    and "existing_flat_ids acc = existing_nested_ids acc - {KNaN}"
    and "\<forall>s \<in> set subs. \<exists>fc \<in> set fb. comment_id fc = comment_id s \<and> is_sub_comment fc"
  shows "existing_flat_ids acc' = existing_nested_ids acc' - {KNaN}"
  using assms
proof (induction subs arbitrary: acc)
  case Nil
  then show ?case by simp
next
  case (Cons s subs)
  from Cons.prems(1) obtain k where k: "hash_key (comment_id s) = Some k"
    by (cases "hash_key (comment_id s)") (simp_all only: merge_sub_comments_None option.distinct)
  from Cons.prems(3) have rest:
    "\<forall>s \<in> set subs. \<exists>fc \<in> set fb. comment_id fc = comment_id s \<and> is_sub_comment fc"
    by simp
  show ?case
  proof (cases "k \<in> existing_nested_ids acc")
    case True
    from Cons.prems(1) have "merge_sub_comments fb subs acc = Some acc'"
      unfolding merge_sub_comments_known[OF k True] .
    from Cons.IH[OF this Cons.prems(2) rest] show ?thesis .
  next
    case False
    let ?P = "\<lambda>fc. py_eq_key (comment_id fc) k \<and> is_sub_comment fc"
    let ?mid = "accept_flat k (find ?P fb)
                  (acc\<lparr>existing_nested_ids := insert k (existing_nested_ids acc)\<rparr>)"
    from Cons.prems(1) have m: "merge_sub_comments fb subs ?mid = Some acc'"
      unfolding merge_sub_comments_new[OF k False] .
    from Cons.prems(3) obtain fc0 where
      "fc0 \<in> set fb" "comment_id fc0 = comment_id s" "is_sub_comment fc0" by auto
    with k have e: "\<exists>fc \<in> set fb. hash_key (comment_id fc) = Some k \<and> is_sub_comment fc"
      by (intro bexI[of _ fc0]) simp_all
    have "existing_flat_ids ?mid = existing_nested_ids ?mid - {KNaN}"
      by (rule sync_step[where S="existing_nested_ids acc" and Q=is_sub_comment])
         (use Cons.prems(2) e in simp_all)
    from Cons.IH[OF m this rest] show ?thesis .
  qed
qed

lemma merge_comment_sync:
  assumes "merge_comment fb c acc = Some acc'"
    and "existing_flat_ids acc = existing_nested_ids acc - {KNaN}"
    and "\<exists>fc \<in> set fb. comment_id fc = comment_id c \<and> \<not> is_sub_comment fc"
    and "\<forall>s \<in> set (sub_comments c). \<exists>fc \<in> set fb. comment_id fc = comment_id s \<and> is_sub_comment fc"
  shows "existing_flat_ids acc' = existing_nested_ids acc' - {KNaN}"
proof -
  from assms(1) obtain k where k: "hash_key (comment_id c) = Some k"
    by (cases "hash_key (comment_id c)") (simp_all add: merge_comment_None)
  show ?thesis
  proof (cases "k \<in> existing_nested_ids acc")
    case True
    with assms(1) k have "acc' = acc" by (simp add: merge_comment_known)
    with assms(2) show ?thesis by simp
  next
    case False
    let ?P = "\<lambda>fc. py_eq_key (comment_id fc) k \<and> \<not> is_sub_comment fc"
    let ?mid = "accept_flat k (find ?P fb)
                  (acc\<lparr>new_nested_comments := new_nested_comments acc @ [c],
                       existing_nested_ids := insert k (existing_nested_ids acc)\<rparr>)"
    from assms(1) have m: "merge_sub_comments fb (sub_comments c) ?mid = Some acc'"
      unfolding merge_comment_new[OF k False] .
    from assms(3) obtain fc0 where
      "fc0 \<in> set fb" "comment_id fc0 = comment_id c" "\<not> is_sub_comment fc0" by auto
    with k have e: "\<exists>fc \<in> set fb. hash_key (comment_id fc) = Some k \<and> \<not> is_sub_comment fc"
      by (intro bexI[of _ fc0]) simp_all
    have "existing_flat_ids ?mid = existing_nested_ids ?mid - {KNaN}"
      by (rule sync_step[where S="existing_nested_ids acc" and Q="\<lambda>fc. \<not> is_sub_comment fc"])
         (use assms(2) e in simp_all)
    from merge_sub_comments_sync[OF m this assms(4)] show ?thesis .
  qed
qed

lemma merge_comments_sync:
  assumes "merge_comments fb nb acc = Some acc'"
    and "existing_flat_ids acc = existing_nested_ids acc - {KNaN}"
    and "matched nb fb"
  shows "existing_flat_ids acc' = existing_nested_ids acc' - {KNaN}"
  using assms
proof (induction nb arbitrary: acc)
  case Nil
  then show ?case by simp
next
  case (Cons c nb)
  from Cons.prems(1) obtain a1 where a1: "merge_comment fb c acc = Some a1"
    "merge_comments fb nb a1 = Some acc'"
    by (cases "merge_comment fb c acc") simp_all
  from Cons.prems(3) have c: "\<exists>fc \<in> set fb. comment_id fc = comment_id c \<and> \<not> is_sub_comment fc"
    "\<forall>s \<in> set (sub_comments c). \<exists>fc \<in> set fb. comment_id fc = comment_id s \<and> is_sub_comment fc"
    "matched nb fb"
    by (simp_all add: matched_Cons)
  from merge_comment_sync[OF a1(1) Cons.prems(2) c(1,2)]
  have "existing_flat_ids a1 = existing_nested_ids a1 - {KNaN}" .
  from Cons.IH[OF a1(2) this c(3)] show ?case .
qed

lemma item_inv_Nil: "item_inv [] []"
  by (simp add: item_inv_def hashable_Nil nested_ids_Nil)

lemma merge_batch_inv:
  assumes "matched nb fb"
    and "item_inv (item_list (all_comments_data st) nid) (item_list (all_comments_flat st) nid)"
  shows "item_inv (item_list (all_comments_data (merge_batch nid nb fb st)) nid)
           (item_list (all_comments_flat (merge_batch nid nb fb st)) nid)"
proof (cases rule: merge_batch_cases[of nb fb nid st])
  case skip
  with assms(2) show ?thesis by simp
next
  case same
  with assms(2) show ?thesis by simp
next
  case (extend acc)
  let ?N = "item_list (all_comments_data st) nid"
  let ?F = "item_list (all_comments_flat st) nid"
  let ?acc0 = "\<lparr>existing_nested_ids = set (id_keys (nested_ids ?N)),
          existing_flat_ids = set (id_keys (map comment_id ?F)),
          new_nested_comments = [], new_flat_comments = []\<rparr>"
  from assms(2) have i: "set (id_keys (map comment_id ?F)) = set (id_keys (nested_ids ?N)) - {KNaN}"
    "distinct (id_keys (map comment_id ?N))" "distinct (id_keys (map comment_id ?F))"
    by (simp_all add: item_inv_def)
  from i(1) have "existing_flat_ids ?acc0 = existing_nested_ids ?acc0 - {KNaN}" by simp
  from merge_comments_sync[OF extend(3) this assms(1)]
  have s: "existing_flat_ids acc = existing_nested_ids acc - {KNaN}" .
  from merge_comments_accepted[OF extend(3)] obtain dn df where
    a: "accepted ?acc0 acc dn df" by (elim exE conjE)
  then have n: "new_nested_comments acc = dn" "new_flat_comments acc = df"
    "hashable (nested_ids dn)" "hashable (map comment_id df)"
    "existing_nested_ids acc = set (id_keys (nested_ids ?N)) \<union> set (id_keys (nested_ids dn))"
    "existing_flat_ids acc = set (id_keys (map comment_id ?F)) \<union> set (id_keys (map comment_id df))"
    "distinct (id_keys (map comment_id dn))"
    "set (id_keys (map comment_id dn)) \<inter> set (id_keys (nested_ids ?N)) = {}"
    "distinct (id_keys (map comment_id df))"
    "set (id_keys (map comment_id df)) \<inter> set (id_keys (map comment_id ?F)) = {}"
    by (simp_all add: accepted_def)
  from n(8) top_keys_subset[of ?N]
  have t: "set (id_keys (map comment_id ?N)) \<inter> set (id_keys (map comment_id dn)) = {}"
    by auto
  from n(10) have u: "set (id_keys (map comment_id ?F)) \<inter> set (id_keys (map comment_id df)) = {}"
    by auto
  from s n(5,6) have e: "set (id_keys (map comment_id (?F @ df)))
      = set (id_keys (nested_ids (?N @ dn))) - {KNaN}"
    by (simp add: nested_ids_append id_keys_append)
  from extend(1,2) n(3,4) have h: "hashable (nested_ids (?N @ dn))"
    "hashable (map comment_id (?F @ df))"
    by (simp_all add: nested_ids_append hashable_append)
  from i(2) n(7) t have d1: "distinct (id_keys (map comment_id (?N @ dn)))"
    by (simp add: id_keys_append)
  from i(3) n(9) u have d2: "distinct (id_keys (map comment_id (?F @ df)))"
    by (simp add: id_keys_append)
  from e h d1 d2 show ?thesis
    unfolding extend(5,6) n(1,2) item_inv_def by blast
qed

lemma item_list_cong: "map_of d k = map_of d' k \<Longrightarrow> item_list d k = item_list d' k"
  by (simp add: item_list_def)

lemma handle_inv:
  assumes "item_inv (item_list (all_comments_data st) n) (item_list (all_comments_flat st) n)"
  shows "item_inv (item_list (all_comments_data (handle_comment_api_response url body st)) n)
           (item_list (all_comments_flat (handle_comment_api_response url body st)) n)"
proof (cases "str_contains COMMENT_API_PATTERN url")
  case False
  with assms show ?thesis by (simp add: handle_comment_api_response_def)
next
  case c: True
  show ?thesis
  proof (cases "search_hex_after ''note_id='' url")
    case None
    with assms show ?thesis by (simp add: handle_comment_api_response_def)
  next
    case (Some nid)
    show ?thesis
    proof (cases body)
      case None
      with assms show ?thesis by (simp add: handle_comment_api_response_def split: option.splits)
    next
      case b: (Some response_body)
      obtain nb fb w where p: "parse_comment_response response_body nid = (nb, fb, w)"
        by (cases "parse_comment_response response_body nid") auto
      with c Some b have h: "handle_comment_api_response url body st = merge_batch nid nb fb st"
        by (simp add: handle_comment_api_response_def)
      show ?thesis
      proof (cases "n = nid")
        case True
        from assms have "item_inv (item_list (all_comments_data st) nid)
                          (item_list (all_comments_flat st) nid)"
          unfolding True .
        from merge_batch_inv[OF parse_comment_response_matched[OF p] this]
        show ?thesis unfolding h True .
      next
        case False
        have "item_list (all_comments_data (merge_batch nid nb fb st)) n
                = item_list (all_comments_data st) n"
          by (rule item_list_cong) (rule merge_batch_other(1)[OF False])
        moreover have "item_list (all_comments_flat (merge_batch nid nb fb st)) n
                = item_list (all_comments_flat st) n"
          by (rule item_list_cong) (rule merge_batch_other(2)[OF False])
        ultimately show ?thesis using assms unfolding h by simp
      qed
    qed
  qed
qed

lemma reachable_inv:
  "reachable st \<Longrightarrow>
   item_inv (item_list (all_comments_data st) n) (item_list (all_comments_flat st) n)"
proof (induction rule: reachable.induct)
  case start
  then show ?case by (simp add: init_state_def item_list_def item_inv_Nil)
next
  case (step st url body)
  from step.IH show ?case by (rule handle_inv)
qed

lemma hashable_top_level: "hashable (nested_ids N) \<Longrightarrow> hashable (map comment_id N)"
  by (induction N) (simp_all add: hashable_Nil hashable_Cons hashable_append nested_ids_Cons)

lemma reachable_two_items: "reachable two_items"
  unfolding two_items_def by (intro reachable.step reachable.start)

text \<open>
  Claim C2, amended. In every state the script can reach, for every item, every
  identifier of the flat sequence occurs in the nested sequence (as a top-level
  identifier or as a reply identifier), and every identifier of the nested sequence
  other than \<^verbatim>\<open>NaN\<close> occurs in the flat sequence; \<^verbatim>\<open>NaN\<close> never occurs in the flat
  sequence. All stored identifiers are values that can be set elements, and they are
  compared as set elements.
\<close>

theorem flat_identifiers_are_nested_identifiers:
  assumes "reachable st"
  shows "hashable (nested_ids (item_list (all_comments_data st) nid)) \<and>
         hashable (map comment_id (item_list (all_comments_flat st) nid)) \<and>
         set (id_keys (map comment_id (item_list (all_comments_flat st) nid)))
           = set (id_keys (nested_ids (item_list (all_comments_data st) nid))) - {KNaN}"
  using reachable_inv [OF assms, of nid] by (simp add: item_inv_def)

theorem flat_identifiers_are_nested_identifiers_witness:
  "reachable two_items \<and>
   nested_ids (item_list (all_comments_data two_items) ''abc123'')
     = [JStr ''a'', JStr ''r1'', JStr ''r2''] \<and>
   map comment_id (item_list (all_comments_flat two_items) ''abc123'')
     = [JStr ''a'', JStr ''r1'', JStr ''r2''] \<and>
   set (id_keys (map comment_id (item_list (all_comments_flat two_items) ''abc123'')))
     = set (id_keys (nested_ids (item_list (all_comments_data two_items) ''abc123''))) - {KNaN}"
proof -
  have 1: "nested_ids (item_list (all_comments_data two_items) ''abc123'')
     = [JStr ''a'', JStr ''r1'', JStr ''r2'']"
    by (simp add: two_items_eq item_list_def nested_ids_def sample_defs)
  have 2: "map comment_id (item_list (all_comments_flat two_items) ''abc123'')
     = [JStr ''a'', JStr ''r1'', JStr ''r2'']"
    by (simp add: two_items_eq item_list_def sample_defs)
  from flat_identifiers_are_nested_identifiers [OF reachable_two_items, of "''abc123''"]
    reachable_two_items 1 2
  show ?thesis by blast
qed

text \<open>
  Claim C2 as stated fails for an identifier that is \<^verbatim>\<open>NaN\<close>: the set test lets the
  comment in, the comparison that looks for its flat row finds none, and the comment is
  stored in the nested sequence with no row in the flat sequence.
\<close>

theorem nan_identifier_counterexample:
  "handle_comment_api_response (api_url ''abc123'')
     (Some (ok_body [JObj [(''id'', JFloat FNaN)]])) init_state
     = \<lparr>all_comments_data =
          [(''abc123'',
            [\<lparr>content = JStr [], like_count = JStr ''0'', ip_location = JStr [],
               nickname = JStr [], comment_id = JFloat FNaN, sub_comments = []\<rparr>])],
        all_comments_flat = [(''abc123'', [])]\<rparr>"
  by (simp add: handle_eval search_api_url contains_api_url)

text \<open>
  Claim C3, amended. Handling the same response twice in succession yields the state
  that handling it once yields, so the second application appends nothing to either
  sequence; and in every reachable state neither the top level of the nested sequence
  nor the flat sequence of an item holds two records with the same identifier. The
  replies stored inside a nested record are kept as they arrived and may repeat an
  identifier.
\<close>

theorem handle_twice_is_handle_once:
  "handle_comment_api_response url body (handle_comment_api_response url body st)
     = handle_comment_api_response url body st \<and>
   (reachable st \<longrightarrow>
      hashable (map comment_id (item_list (all_comments_data st) nid)) \<and>
      distinct (id_keys (map comment_id (item_list (all_comments_data st) nid))) \<and>
      hashable (map comment_id (item_list (all_comments_flat st) nid)) \<and>
      distinct (id_keys (map comment_id (item_list (all_comments_flat st) nid))))"
proof (intro conjI impI)
  show "handle_comment_api_response url body (handle_comment_api_response url body st)
     = handle_comment_api_response url body st"
    by (rule handle_idem)
next
  assume "reachable st"
  then have i: "item_inv (item_list (all_comments_data st) nid)
                  (item_list (all_comments_flat st) nid)"
    by (rule reachable_inv)
  then show "distinct (id_keys (map comment_id (item_list (all_comments_data st) nid)))"
    "hashable (map comment_id (item_list (all_comments_flat st) nid))"
    "distinct (id_keys (map comment_id (item_list (all_comments_flat st) nid)))"
    by (simp_all add: item_inv_def)
  from i have "hashable (nested_ids (item_list (all_comments_data st) nid))"
    by (simp add: item_inv_def)
  then show "hashable (map comment_id (item_list (all_comments_data st) nid))"
    by (rule hashable_top_level)
qed

theorem handle_twice_is_handle_once_witness:
  "handle_comment_api_response (api_url ''abc123'') (Some (ok_body [entry ''p'' []]))
     (handle_comment_api_response (api_url ''abc123'') (Some (ok_body [entry ''p'' []]))
        init_state)
     = \<lparr>all_comments_data = [(''abc123'', [nested_rec ''p'' []])],
        all_comments_flat = [(''abc123'', [flat_rec ''abc123'' ''p''])]\<rparr> \<and>
   reachable two_items \<and>
   map comment_id (item_list (all_comments_data two_items) ''abc123'') = [JStr ''a''] \<and>
   distinct (id_keys (map comment_id (item_list (all_comments_data two_items) ''abc123''))) \<and>
   distinct (id_keys (map comment_id (item_list (all_comments_flat two_items) ''abc123'')))"
proof -
  have 1: "map comment_id (item_list (all_comments_data two_items) ''abc123'') = [JStr ''a'']"
    by (simp add: two_items_eq item_list_def sample_defs)
  from handle_twice_is_handle_once
         [of "api_url ''abc123''" "Some (ok_body [entry ''p'' []])" init_state]
  have "handle_comment_api_response (api_url ''abc123'') (Some (ok_body [entry ''p'' []]))
     (handle_comment_api_response (api_url ''abc123'') (Some (ok_body [entry ''p'' []]))
        init_state) = one_comment"
    unfolding one_comment_def by blast
  moreover from handle_twice_is_handle_once [of _ _ two_items "''abc123''"]
    reachable_two_items
  have "distinct (id_keys (map comment_id (item_list (all_comments_data two_items) ''abc123'')))"
    "distinct (id_keys (map comment_id (item_list (all_comments_flat two_items) ''abc123'')))"
    by blast+
  ultimately show ?thesis using reachable_two_items 1 by (simp add: one_comment_eq)
qed

text \<open>
  Claim C3 as stated fails for the replies of the nested sequence: a response in which
  the comment \<open>a\<close> carries two replies with the identifier \<open>r\<close> is stored with both of
  them under \<open>a\<close>.
\<close>

theorem repeated_reply_counterexample:
  "handle_comment_api_response (api_url ''abc123'')
     (Some (ok_body [entry ''a'' [entry ''r'' [], entry ''r'' []]])) init_state
     = \<lparr>all_comments_data = [(''abc123'', [nested_rec ''a'' [''r'', ''r'']])],
        all_comments_flat =
          [(''abc123'', [flat_rec ''abc123'' ''a'', flat_reply_rec ''abc123'' ''a'' ''r''])]\<rparr> \<and>
   map comment_id (sub_comments (nested_rec ''a'' [''r'', ''r''])) = [JStr ''r'', JStr ''r'']"
  by (simp add: handle_eval search_api_url contains_api_url)

end
